theory Spec2Isabelle
  imports Main "HOL-Library.Word"
begin

unbundle bit_operations_syntax

section \<open>Common types (src/common/types.h)\<close>

type_synonym TxnId = "64 word"
type_synonym Key = "8 word list"

text \<open>
  Failures of the program are values. \<open>RuntimeError\<close> is a thrown
  \<^verbatim>\<open>std::runtime_error\<close>, \<open>Fatal\<close> a \<^verbatim>\<open>LOG(FATAL)\<close>, \<open>CheckFailed\<close> a failed
  \<^verbatim>\<open>CHECK\<close>, \<open>OutOfRange\<close> the exception of a protobuf map's \<^verbatim>\<open>at\<close> on a missing key and
  \<open>DivisionByZero\<close> an integer division or remainder by zero; \<open>UndefinedBehaviour\<close> stands
  where the source would dereference an end iterator or write past the end of a vector.
  Each carries the message of the source where there is one.
\<close>

datatype error =
    RuntimeError string
  | Fatal string
  | CheckFailed string
  | OutOfRange
  | DivisionByZero
  | UndefinedBehaviour

section \<open>AsyncLog (src/common/async_log.h)\<close>

text \<open>
  Fields \<open>al_log\<close> and \<open>al_next\<close> are the members \<^verbatim>\<open>log_\<close> and \<^verbatim>\<open>next_\<close>.
  The log is an \<^verbatim>\<open>unordered_map<uint32_t, T>\<close> and the 32-bit position of the next
  item to read; \<^verbatim>\<open>next_++\<close> wraps around at \<open>2 ^ 32\<close>, as the addition of \<open>32 word\<close> does.
  The message of the exception of \<^verbatim>\<open>Insert\<close> also names the position, which is left out
  here.
\<close>

record 'a AsyncLog =
  al_log :: "32 word \<rightharpoonup> 'a"
  al_next :: "32 word"

definition AsyncLog :: "32 word \<Rightarrow> 'a AsyncLog" where
  "AsyncLog start_from = \<lparr>al_log = Map.empty, al_next = start_from\<rparr>"

definition Insert :: "32 word \<Rightarrow> 'a \<Rightarrow> 'a AsyncLog \<Rightarrow> error + 'a AsyncLog" where
  "Insert position item l =
     (if position < al_next l then Inr l
      else if al_log l position \<noteq> None
        then Inl (RuntimeError ''Log position has already been taken'')
      else Inr (l\<lparr>al_log := (al_log l)(position \<mapsto> item)\<rparr>))"

definition HasNext :: "'a AsyncLog \<Rightarrow> bool" where
  "HasNext l = (al_log l (al_next l) \<noteq> None)"

text \<open>
  \<^verbatim>\<open>Next\<close> is declared to return a \<^verbatim>\<open>std::pair<T, uint32_t>\<close>, and what it returns is
  \<^verbatim>\<open>std::make_pair(position, std::move(result))\<close>, a \<^verbatim>\<open>std::pair<uint32_t, T>\<close>. The converting
  constructor of \<^verbatim>\<open>std::pair\<close> makes the one from the other, component by component: the
  first component of the result is the position converted to \<^verbatim>\<open>T\<close>, and the second is the
  item converted to \<^verbatim>\<open>uint32_t\<close>. The parameters \<open>to_T\<close> and \<open>to_uint32\<close> are these two implicit
  conversions of the item type \<^verbatim>\<open>T\<close>; with an item type that lacks one of them, such as
  \<^verbatim>\<open>std::string\<close>, a call of \<^verbatim>\<open>Next\<close> does not compile. For an unsigned integer type both
  conversions are \<open>ucast\<close>: \<^verbatim>\<open>uint64_t\<close> to \<^verbatim>\<open>uint32_t\<close> drops the upper 32 bits.
\<close>

definition Next ::
  "(32 word \<Rightarrow> 'a) \<Rightarrow> ('a \<Rightarrow> 32 word) \<Rightarrow> 'a AsyncLog \<Rightarrow> error + (('a \<times> 32 word) \<times> 'a AsyncLog)" where
  "Next to_T to_uint32 l =
     (case al_log l (al_next l) of
        None \<Rightarrow> Inl (RuntimeError ''Next item does not exist'')
      | Some result \<Rightarrow>
          (let position = al_next l
           in Inr ((to_T position, to_uint32 result),
                   \<lparr>al_log = (al_log l)(position := None), al_next = al_next l + 1\<rparr>)))"

text \<open>
  A client of the log: a sequence of calls on one log. A call that throws leaves the
  object as it was (both methods throw before they write), so the run goes on from the
  same state; the result of every call is recorded, for \<^verbatim>\<open>Next\<close> the two components of the
  pair that it returns.
\<close>

datatype 'a call = CallInsert "32 word" 'a | CallNext

datatype ('p, 'x) outcome = Threw error | Stored | Yielded 'p 'x

fun call_step ::
  "(32 word \<Rightarrow> 'a) \<Rightarrow> ('a \<Rightarrow> 32 word) \<Rightarrow> 'a call \<Rightarrow> 'a AsyncLog
     \<Rightarrow> ('a, 32 word) outcome \<times> 'a AsyncLog" where
  "call_step to_T to_uint32 (CallInsert p x) l =
     (case Insert p x l of Inl e \<Rightarrow> (Threw e, l) | Inr l' \<Rightarrow> (Stored, l'))"
| "call_step to_T to_uint32 CallNext l =
     (case Next to_T to_uint32 l of
        Inl e \<Rightarrow> (Threw e, l)
      | Inr ((a, b), l') \<Rightarrow> (Yielded a b, l'))"

fun run_calls ::
  "(32 word \<Rightarrow> 'a) \<Rightarrow> ('a \<Rightarrow> 32 word) \<Rightarrow> 'a call list \<Rightarrow> 'a AsyncLog
     \<Rightarrow> ('a, 32 word) outcome list \<times> 'a AsyncLog" where
  "run_calls to_T to_uint32 [] l = ([], l)"
| "run_calls to_T to_uint32 (c # cs) l =
     (let (r, l') = call_step to_T to_uint32 c l;
          (rs, l'') = run_calls to_T to_uint32 cs l'
      in (r # rs, l''))"

fun inserted :: "'a call list \<Rightarrow> (32 word \<times> 'a) list" where
  "inserted [] = []"
| "inserted (CallInsert p x # cs) = (p, x) # inserted cs"
| "inserted (CallNext # cs) = inserted cs"



text \<open>
  What the specification promises of such a run, written without the log: the reader has
  delivered \<open>k\<close> items so far, the calls so far have inserted the pairs \<open>ins\<close>; an insert
  always succeeds, and a read delivers the position \<open>start + k\<close> with the item inserted
  there when there is one and fails otherwise. \<open>converted\<close> is what the pair of the
  specification becomes in the return type of \<^verbatim>\<open>Next\<close>.
\<close>

fun in_order ::
  "32 word \<Rightarrow> nat \<Rightarrow> (32 word \<times> 'a) list \<Rightarrow> 'a call list \<Rightarrow> (32 word, 'a) outcome list" where
  "in_order start k ins [] = []"
| "in_order start k ins (CallInsert p x # cs) = Stored # in_order start k ((p, x) # ins) cs"
| "in_order start k ins (CallNext # cs) =
     (case map_of ins (start + of_nat k) of
        None \<Rightarrow> Threw (RuntimeError ''Next item does not exist'') # in_order start k ins cs
      | Some x \<Rightarrow> Yielded (start + of_nat k) x # in_order start (Suc k) ins cs)"

fun converted ::
  "(32 word \<Rightarrow> 'a) \<Rightarrow> ('a \<Rightarrow> 32 word) \<Rightarrow> (32 word, 'a) outcome \<Rightarrow> ('a, 32 word) outcome" where
  "converted to_T to_uint32 (Yielded p x) = Yielded (to_T p) (to_uint32 x)"
| "converted to_T to_uint32 (Threw e) = Threw e"
| "converted to_T to_uint32 Stored = Stored"

section \<open>LockQueueTail (src/module/scheduler_components/ddr_lock_manager.cpp)\<close>

text \<open>
  The tail of the lock queue of one key-replica: the last writer, if any, and the readers
  that came after it.
\<close>

record LockQueueTail =
  write_lock_requester :: "TxnId option"
  read_lock_requesters :: "TxnId list"

definition empty_tail :: LockQueueTail where
  "empty_tail = \<lparr>write_lock_requester = None, read_lock_requesters = []\<rparr>"

definition AcquireReadLock :: "TxnId \<Rightarrow> LockQueueTail \<Rightarrow> TxnId option \<times> LockQueueTail" where
  "AcquireReadLock txn_id q =
     (let q1 = q\<lparr>read_lock_requesters := read_lock_requesters q @ [txn_id]\<rparr>
      in (write_lock_requester q1, q1))"

definition AcquireWriteLock :: "TxnId \<Rightarrow> LockQueueTail \<Rightarrow> TxnId list \<times> LockQueueTail" where
  "AcquireWriteLock txn_id q =
     (let deps = [];
          (deps, q1) =
            (if read_lock_requesters q = []
             then (case write_lock_requester q of
                     Some w \<Rightarrow> (deps @ [w], q)
                   | None \<Rightarrow> (deps, q))
             else (deps @ read_lock_requesters q, q\<lparr>read_lock_requesters := []\<rparr>))
      in (deps, q1\<lparr>write_lock_requester := Some txn_id\<rparr>))"

section \<open>Partitioning by hash (src/common/configuration.cpp)\<close>

text \<open>
  \<^verbatim>\<open>FNVHash\<close> keeps its hash in a \<^verbatim>\<open>uint64_t\<close>. Each round multiplies (modulo \<open>2 ^ 64\<close>),
  reduces modulo \<^verbatim>\<open>1LL << 32\<close> and then xors the character in: \<^verbatim>\<open>*it\<close> is a \<^verbatim>\<open>char\<close>,
  promoted to \<^verbatim>\<open>int\<close> and converted to \<^verbatim>\<open>uint64_t\<close>, which extends the sign where the
  platform's \<^verbatim>\<open>char\<close> is signed. The flag \<open>char_signed\<close> says which platform it is. The
  result is truncated to \<^verbatim>\<open>uint32_t\<close> on return.
\<close>

definition char_value :: "bool \<Rightarrow> 8 word \<Rightarrow> 64 word" where
  "char_value char_signed c = (if char_signed then scast c else ucast c)"

fun FNVHash_loop :: "bool \<Rightarrow> 64 word \<Rightarrow> 8 word list \<Rightarrow> 64 word" where
  "FNVHash_loop char_signed hash [] = hash"
| "FNVHash_loop char_signed hash (c # cs) =
     FNVHash_loop char_signed
       (((hash * 0x01000193) mod 0x100000000) XOR char_value char_signed c) cs"

definition FNVHash :: "bool \<Rightarrow> 8 word list \<Rightarrow> 32 word" where
  "FNVHash char_signed bytes = ucast (FNVHash_loop char_signed 0x811c9dc5 bytes)"

text \<open>
  The part of the configuration that partitioning reads: \<open>hash_partitioning\<close> is
  \<open>Some partition_key_num_bytes\<close> when the configuration has hash partitioning.
\<close>

record Configuration =
  num_partitions :: "32 word"
  num_replicas :: "32 word"
  hash_partitioning :: "32 word option"

definition partition_of_int_key :: "Configuration \<Rightarrow> 32 word \<Rightarrow> error + 32 word" where
  "partition_of_int_key cfg key =
     (if num_partitions cfg = 0 then Inl DivisionByZero else Inr (key mod num_partitions cfg))"

text \<open>
  \<open>stoll\<close> stands for \<^verbatim>\<open>std::stoll\<close> of the C++ library, which the integer mode calls; its
  \<^verbatim>\<open>long long\<close> result is truncated to the \<^verbatim>\<open>uint32_t\<close> parameter of the integer overload.
\<close>

definition partition_of_key ::
  "(Key \<Rightarrow> error + 64 word) \<Rightarrow> bool \<Rightarrow> Configuration \<Rightarrow> Key \<Rightarrow> error + 32 word" where
  "partition_of_key stoll char_signed cfg key =
     (case hash_partitioning cfg of
        Some partition_key_num_bytes \<Rightarrow>
          (let prefix = (if unat partition_key_num_bytes \<ge> length key then key
                         else take (unat partition_key_num_bytes) key)
           in if num_partitions cfg = 0 then Inl DivisionByZero
              else Inr (FNVHash char_signed prefix mod num_partitions cfg))
      | None \<Rightarrow>
          (case stoll key of
             Inl e \<Rightarrow> Inl e
           | Inr n \<Rightarrow> partition_of_int_key cfg (ucast n)))"

text \<open>
  The hash the specification names: 32-bit FNV-1a, which xors the byte in first and
  multiplies by the prime afterwards.
\<close>

fun FNV1a_from :: "32 word \<Rightarrow> 8 word list \<Rightarrow> 32 word" where
  "FNV1a_from h [] = h"
| "FNV1a_from h (c # cs) = FNV1a_from ((h XOR ucast c) * 0x01000193) cs"

definition FNV1a :: "8 word list \<Rightarrow> 32 word" where
  "FNV1a bytes = FNV1a_from 0x811c9dc5 bytes"

text \<open>
  The 32-bit FNV-1 hash: the same offset basis and prime, but each round multiplies first
  and xors the byte in afterwards. The byte is widened as the platform's \<^verbatim>\<open>char\<close> is.
\<close>

definition char_value32 :: "bool \<Rightarrow> 8 word \<Rightarrow> 32 word" where
  "char_value32 char_signed c = (if char_signed then scast c else ucast c)"

fun FNV1_from :: "bool \<Rightarrow> 32 word \<Rightarrow> 8 word list \<Rightarrow> 32 word" where
  "FNV1_from char_signed h [] = h"
| "FNV1_from char_signed h (c # cs) =
     FNV1_from char_signed ((h * 0x01000193) XOR char_value32 char_signed c) cs"

definition FNV1 :: "bool \<Rightarrow> 8 word list \<Rightarrow> 32 word" where
  "FNV1 char_signed bytes = FNV1_from char_signed 0x811c9dc5 bytes"


section \<open>DDRLockManager (src/module/scheduler_components/ddr_lock_manager.cpp)\<close>

datatype LockMode = UNLOCKED | READ | WRITE

datatype AcquireLocksResult = ACQUIRED | WAITING | ABORT

text \<open>
  Modelled from the spec: the constant \<^verbatim>\<open>kSentinelTxnId\<close> and the structure \<^verbatim>\<open>TxnInfo\<close>,
  which the header of the lock manager declares. The sentinel is the transaction id 0
  and denotes a removed edge. A \<open>TxnInfo\<close> has the id (\<open>info_id\<close>), the number of lock requests still
  expected, the number of transactions waited for and the list of the transactions that
  wait for it; a new one has both counters 0 and an empty list. The counters are
  \<^verbatim>\<open>int\<close> in the source and integers here.
\<close>

definition kSentinelTxnId :: TxnId where
  "kSentinelTxnId = 0"

record TxnInfo =
  info_id :: TxnId
  unarrived_lock_requests :: int
  num_waiting_for :: int
  waited_by :: "TxnId list"

definition new_TxnInfo :: "TxnId \<Rightarrow> TxnInfo" where
  "new_TxnInfo txn_id =
     \<lparr>info_id = txn_id, unarrived_lock_requests = 0, num_waiting_for = 0, waited_by = []\<rparr>"

definition is_complete :: "TxnInfo \<Rightarrow> bool" where
  "is_complete t = (unarrived_lock_requests t = 0)"

definition is_ready :: "TxnInfo \<Rightarrow> bool" where
  "is_ready t = (is_complete t \<and> num_waiting_for t = 0)"

text \<open>
  What the lock manager reads of a \<^verbatim>\<open>TxnHolder\<close> and its transaction: the id, the keys
  in this partition with their lock modes, whether the procedure is a remaster, the
  master of each key in the master metadata, and the two fields of a remaster.
\<close>

record TxnHolder =
  txn_id :: TxnId
  keys_in_partition :: "(Key \<times> LockMode) list"
  is_remaster :: bool
  master_metadata :: "Key \<rightharpoonup> 32 word"
  new_master :: "32 word"
  is_new_master_lock_only :: bool

text \<open>
  \<^verbatim>\<open>MakeKeyReplica\<close> joins the key, a colon and the decimal master into one string. The
  decimal has no colon, so the string determines the pair, and the pair is the key of the
  lock table here.
\<close>

type_synonym KeyReplica = "Key \<times> 32 word"

definition MakeKeyReplica :: "Key \<Rightarrow> 32 word \<Rightarrow> KeyReplica" where
  "MakeKeyReplica key master = (key, master)"

type_synonym TxnInfoTable = "TxnId \<rightharpoonup> TxnInfo"

record DDRLockManager =
  lock_table :: "KeyReplica \<rightharpoonup> LockQueueTail"
  txn_info :: TxnInfoTable
  ready_txns :: "TxnId list"

definition new_DDRLockManager :: DDRLockManager where
  "new_DDRLockManager = \<lparr>lock_table = Map.empty, txn_info = Map.empty, ready_txns = []\<rparr>"

text \<open>\<^verbatim>\<open>try_emplace(txn_id, txn_id)\<close>: a new entry only where there is none.\<close>

definition try_emplace :: "TxnId \<Rightarrow> TxnInfoTable \<Rightarrow> TxnInfoTable" where
  "try_emplace t tbl = (case tbl t of None \<Rightarrow> tbl(t \<mapsto> new_TxnInfo t) | Some i \<Rightarrow> tbl)"

definition entry :: "TxnInfoTable \<Rightarrow> TxnId \<Rightarrow> TxnInfo" where
  "entry tbl t = (case tbl t of None \<Rightarrow> new_TxnInfo t | Some i \<Rightarrow> i)"

definition AcceptTransaction :: "TxnHolder \<Rightarrow> DDRLockManager \<Rightarrow> error + (bool \<times> DDRLockManager)" where
  "AcceptTransaction h lm =
     (if keys_in_partition h = []
      then Inl (Fatal ''Empty txn should not have reached lock manager'')
      else
        (let tbl = try_emplace (txn_id h) (txn_info lm);
             info = entry tbl (txn_id h);
             info1 = (if is_remaster h
                      then info\<lparr>unarrived_lock_requests := unarrived_lock_requests info + 2\<rparr>
                      else info\<lparr>unarrived_lock_requests :=
                             unarrived_lock_requests info + int (length (keys_in_partition h))\<rparr>)
         in Inr (is_ready info1, lm\<lparr>txn_info := tbl(txn_id h \<mapsto> info1)\<rparr>)))"

text \<open>
  The locks to request. A remaster requests one write lock, on the first key in the
  partition: the master is looked up in the metadata first (\<^verbatim>\<open>at\<close> fails on a missing key)
  and replaced by the new master for the lock-only piece of the new master.
\<close>

fun locks_of_keys :: "(Key \<rightharpoonup> 32 word) \<Rightarrow> (Key \<times> LockMode) list \<Rightarrow> error + (KeyReplica \<times> LockMode) list" where
  "locks_of_keys md [] = Inr []"
| "locks_of_keys md ((key, mode) # ks) =
     (case md key of
        None \<Rightarrow> Inl OutOfRange
      | Some master \<Rightarrow>
          (case locks_of_keys md ks of
             Inl e \<Rightarrow> Inl e
           | Inr ls \<Rightarrow> Inr ((MakeKeyReplica key master, mode) # ls)))"

definition locks_to_request :: "TxnHolder \<Rightarrow> error + (KeyReplica \<times> LockMode) list" where
  "locks_to_request h =
     (if is_remaster h then
        (case keys_in_partition h of
           [] \<Rightarrow> Inl (Fatal ''Empty txn should not have reached lock manager'')
         | (key, m) # ks \<Rightarrow>
             (case master_metadata h key of
                None \<Rightarrow> Inl OutOfRange
              | Some master0 \<Rightarrow>
                  (let master = (if is_new_master_lock_only h then new_master h else master0)
                   in Inr [(MakeKeyReplica key master, WRITE)])))
      else locks_of_keys (master_metadata h) (keys_in_partition h))"

text \<open>
  The loop over the lock table: \<^verbatim>\<open>lock_table_[key_replica]\<close> makes an empty tail where
  there is none; a reader adds its one blocker at the end of \<^verbatim>\<open>blocking_txns\<close>, a writer
  inserts its blockers at the front.
\<close>

fun inspect_lock_table ::
  "TxnId \<Rightarrow> (KeyReplica \<times> LockMode) list \<Rightarrow> (KeyReplica \<rightharpoonup> LockQueueTail) \<Rightarrow> TxnId list
     \<Rightarrow> error + (TxnId list \<times> (KeyReplica \<rightharpoonup> LockQueueTail))" where
  "inspect_lock_table t [] lt blocking_txns = Inr (blocking_txns, lt)"
| "inspect_lock_table t ((key_replica, mode) # ls) lt blocking_txns =
     (let lock_queue_tail = (case lt key_replica of None \<Rightarrow> empty_tail | Some q \<Rightarrow> q)
      in case mode of
           READ \<Rightarrow>
             (let (b_txn, q) = AcquireReadLock t lock_queue_tail
              in inspect_lock_table t ls (lt(key_replica \<mapsto> q))
                   (case b_txn of None \<Rightarrow> blocking_txns | Some b \<Rightarrow> blocking_txns @ [b]))
         | WRITE \<Rightarrow>
             (let (b_txns, q) = AcquireWriteLock t lock_queue_tail
              in inspect_lock_table t ls (lt(key_replica \<mapsto> q)) (b_txns @ blocking_txns))
         | UNLOCKED \<Rightarrow> Inl (Fatal ''Invalid lock mode''))"

text \<open>
  The loop over the blockers, sorted and without duplicates: the transaction itself and
  the blockers that have left the table are skipped; for any other blocker the counter of
  the transaction goes up and the transaction is added to the blocker's waited-by list.
\<close>

fun add_waits :: "TxnId \<Rightarrow> TxnId list \<Rightarrow> TxnInfoTable \<Rightarrow> TxnInfoTable" where
  "add_waits t [] tbl = tbl"
| "add_waits t (b # bs) tbl =
     (if b = t then add_waits t bs tbl
      else case tbl b of
             None \<Rightarrow> add_waits t bs tbl
           | Some b_txn_info \<Rightarrow>
               (let info = entry tbl t;
                    tbl1 = tbl(t \<mapsto> info\<lparr>num_waiting_for := num_waiting_for info + 1\<rparr>);
                    tbl2 = tbl1(b \<mapsto> b_txn_info\<lparr>waited_by := waited_by b_txn_info @ [t]\<rparr>)
                in add_waits t bs tbl2))"

definition AcquireLocks ::
  "TxnHolder \<Rightarrow> DDRLockManager \<Rightarrow> error + (AcquireLocksResult \<times> DDRLockManager)" where
  "AcquireLocks h lm =
     (if keys_in_partition h = []
      then Inl (Fatal ''Empty txn should not have reached lock manager'')
      else case locks_to_request h of
        Inl e \<Rightarrow> Inl e
      | Inr locks \<Rightarrow>
          (case inspect_lock_table (txn_id h) locks (lock_table lm) [] of
             Inl e \<Rightarrow> Inl e
           | Inr (blocking_txns, lt) \<Rightarrow>
               (let blockers = remdups_adj (sort blocking_txns);
                    tbl = try_emplace (txn_id h) (txn_info lm);
                    info = entry tbl (txn_id h);
                    tbl1 = tbl(txn_id h \<mapsto> info\<lparr>unarrived_lock_requests :=
                                          unarrived_lock_requests info - int (length locks)\<rparr>);
                    tbl2 = add_waits (txn_id h) blockers tbl1;
                    lm1 = lm\<lparr>lock_table := lt, txn_info := tbl2\<rparr>
                in Inr (if is_ready (entry tbl2 (txn_id h)) then ACQUIRED else WAITING, lm1))))"

definition AcceptTxnAndAcquireLocks ::
  "TxnHolder \<Rightarrow> DDRLockManager \<Rightarrow> error + (AcquireLocksResult \<times> DDRLockManager)" where
  "AcceptTxnAndAcquireLocks h lm =
     (case AcceptTransaction h lm of
        Inl e \<Rightarrow> Inl e
      | Inr (r, lm1) \<Rightarrow> AcquireLocks h lm1)"

text \<open>
  The loop of \<^verbatim>\<open>ReleaseLocks\<close> over the waited-by list of the released transaction:
  sentinels and unknown transactions are skipped, the counter of any other blocked
  transaction goes down, and the transaction is added to the result when that makes it
  ready.
\<close>

fun release_waiters :: "TxnId list \<Rightarrow> TxnInfoTable \<Rightarrow> TxnId list \<Rightarrow> TxnId list \<times> TxnInfoTable" where
  "release_waiters [] tbl result = (result, tbl)"
| "release_waiters (blocked_txn_id # ws) tbl result =
     (if blocked_txn_id = kSentinelTxnId then release_waiters ws tbl result
      else case tbl blocked_txn_id of
             None \<Rightarrow> release_waiters ws tbl result
           | Some blocked_txn \<Rightarrow>
               (let blocked1 = blocked_txn\<lparr>num_waiting_for := num_waiting_for blocked_txn - 1\<rparr>
                in release_waiters ws (tbl(blocked_txn_id \<mapsto> blocked1))
                     (if is_ready blocked1 then result @ [blocked_txn_id] else result)))"

definition ReleaseLocks :: "TxnHolder \<Rightarrow> DDRLockManager \<Rightarrow> error + (TxnId list \<times> DDRLockManager)" where
  "ReleaseLocks h lm =
     (case txn_info lm (txn_id h) of
        None \<Rightarrow> Inr ([], lm)
      | Some info \<Rightarrow>
          if \<not> is_ready info then Inl (Fatal ''Releasing unready txn is forbidden'')
          else
            (let (result, tbl) = release_waiters (waited_by info) (txn_info lm) []
             in Inr (result, lm\<lparr>txn_info := tbl(txn_id h := None)\<rparr>)))"

definition GetReadyTxns :: "DDRLockManager \<Rightarrow> TxnId list \<times> DDRLockManager" where
  "GetReadyTxns lm = (ready_txns lm, lm\<lparr>ready_txns := []\<rparr>)"

text \<open>
  A caller of the lock manager: a sequence of calls of the three operations on one lock
  manager. A fatal error ends the program, so the run ends at the first error.
\<close>

datatype lm_call = Accept TxnHolder | Acquire TxnHolder | Release TxnHolder

fun lm_step :: "lm_call \<Rightarrow> DDRLockManager \<Rightarrow> error + DDRLockManager" where
  "lm_step (Accept h) lm = (case AcceptTransaction h lm of Inl e \<Rightarrow> Inl e | Inr (r, lm1) \<Rightarrow> Inr lm1)"
| "lm_step (Acquire h) lm = (case AcquireLocks h lm of Inl e \<Rightarrow> Inl e | Inr (r, lm1) \<Rightarrow> Inr lm1)"
| "lm_step (Release h) lm = (case ReleaseLocks h lm of Inl e \<Rightarrow> Inl e | Inr (r, lm1) \<Rightarrow> Inr lm1)"

fun lm_run :: "lm_call list \<Rightarrow> DDRLockManager \<Rightarrow> error + DDRLockManager" where
  "lm_run [] lm = Inr lm"
| "lm_run (c # cs) lm = (case lm_step c lm of Inl e \<Rightarrow> Inl e | Inr lm1 \<Rightarrow> lm_run cs lm1)"

text \<open>
  The number of times a transaction occurs in the waited-by lists of the transactions in
  the table.
\<close>

definition occurrences :: "TxnInfoTable \<Rightarrow> TxnId \<Rightarrow> int" where
  "occurrences tbl t = (\<Sum>u \<in> dom tbl. int (count_list (waited_by (entry tbl u)) t))"

section \<open>DeadlockResolver (src/module/scheduler_components/ddr_lock_manager.cpp)\<close>

datatype ComponentType = UNASSIGNED | STABLE | UNSTABLE

record Node =
  node_id :: TxnId
  node_is_complete :: bool
  redges :: "TxnId list"
  visited :: bool
  comp_type :: ComponentType

definition new_Node :: "TxnId \<Rightarrow> bool \<Rightarrow> Node" where
  "new_Node t c =
     \<lparr>node_id = t, node_is_complete = c, redges = [], visited = False, comp_type = UNASSIGNED\<rparr>"

text \<open>
  The members of the resolver (\<open>snapshot\<close> is \<^verbatim>\<open>txn_info_\<close>, the copy of the table of the
  lock manager) and the two local lists of \<^verbatim>\<open>Loop\<close>.
\<close>

record DeadlockResolver =
  snapshot :: TxnInfoTable
  aux_graph :: "TxnId \<rightharpoonup> Node"
  topo_order :: "TxnId list"
  ssc :: "TxnId list"
  to_be_updated :: "TxnId list"
  new_ready_txns :: "TxnId list"

text \<open>\<^verbatim>\<open>aux_graph_.try_emplace(id, id, is_complete)\<close>, with the node it returns.\<close>

definition aux_emplace :: "TxnId \<Rightarrow> bool \<Rightarrow> (TxnId \<rightharpoonup> Node) \<Rightarrow> Node \<times> (TxnId \<rightharpoonup> Node)" where
  "aux_emplace t c g = (case g t of None \<Rightarrow> (new_Node t c, g(t \<mapsto> new_Node t c)) | Some nd \<Rightarrow> (nd, g))"

text \<open>
  The two depth-first traversals are recursive in the source, with no bound but the size
  of the graph. Here they take fuel, the depth of recursion allowed: the result \<open>None\<close>
  says that the fuel did not suffice, \<open>Some (Inl e)\<close> that a check failed, and
  \<open>Some (Inr s)\<close> is the state on return. \<open>FindTopoOrderAndTranspose\<close> is the function of
  the source and \<open>visit_waited_by\<close> its loop over the waited-by list of the transaction.
\<close>

fun FindTopoOrderAndTranspose ::
      "nat \<Rightarrow> TxnInfo \<Rightarrow> DeadlockResolver \<Rightarrow> (error + DeadlockResolver) option"
  and visit_waited_by ::
      "nat \<Rightarrow> TxnInfo \<Rightarrow> TxnId list \<Rightarrow> DeadlockResolver \<Rightarrow> (error + DeadlockResolver) option"
where
  "FindTopoOrderAndTranspose 0 txn r = None"
| "FindTopoOrderAndTranspose (Suc fuel) txn r =
     (case visit_waited_by fuel txn (waited_by txn) r of
        None \<Rightarrow> None
      | Some (Inl e) \<Rightarrow> Some (Inl e)
      | Some (Inr r1) \<Rightarrow> Some (Inr (r1\<lparr>topo_order := topo_order r1 @ [info_id txn]\<rparr>)))"
| "visit_waited_by fuel txn [] r = Some (Inr r)"
| "visit_waited_by fuel txn (n # ns) r =
     (if n = kSentinelTxnId then visit_waited_by fuel txn ns r
      else case snapshot r n of
        None \<Rightarrow> Some (Inl (CheckFailed ''Corrupted graph. Unknown txn''))
      | Some neighbor \<Rightarrow>
          (let (node, g) = aux_emplace (info_id neighbor) (is_complete neighbor) (aux_graph r);
               node1 = node\<lparr>redges := redges node @ [info_id txn]\<rparr>
           in if \<not> visited node1
              then (case FindTopoOrderAndTranspose fuel neighbor
                           (r\<lparr>aux_graph := g(info_id neighbor \<mapsto> node1\<lparr>visited := True\<rparr>)\<rparr>) of
                      None \<Rightarrow> None
                    | Some (Inl e) \<Rightarrow> Some (Inl e)
                    | Some (Inr r1) \<Rightarrow> visit_waited_by fuel txn ns r1)
              else visit_waited_by fuel txn ns (r\<lparr>aux_graph := g(info_id neighbor \<mapsto> node1)\<rparr>)))"

text \<open>
  The first loop of \<^verbatim>\<open>Loop\<close>, over the snapshot. An \<^verbatim>\<open>unordered_map\<close> is iterated in an order
  that the implementation chooses: \<open>order\<close> is that order, a list of the keys of the table.
\<close>

fun find_topo_order :: "nat \<Rightarrow> TxnId list \<Rightarrow> DeadlockResolver \<Rightarrow> (error + DeadlockResolver) option" where
  "find_topo_order fuel [] r = Some (Inr r)"
| "find_topo_order fuel (k # ks) r =
     (case snapshot r k of
        None \<Rightarrow> find_topo_order fuel ks r
      | Some txn \<Rightarrow>
          (let (node, g) = aux_emplace (info_id txn) (is_complete txn) (aux_graph r)
           in if \<not> visited node
              then (case FindTopoOrderAndTranspose fuel txn
                           (r\<lparr>aux_graph := g(info_id txn \<mapsto> node\<lparr>visited := True\<rparr>)\<rparr>) of
                      None \<Rightarrow> None
                    | Some (Inl e) \<Rightarrow> Some (Inl e)
                    | Some (Inr r1) \<Rightarrow> find_topo_order fuel ks r1)
              else find_topo_order fuel ks (r\<lparr>aux_graph := g\<rparr>)))"

text \<open>
  \<open>FormStronglyConnectedComponent\<close> with its loop over the reverse edges of the node,
  \<open>visit_redges\<close>. The node is the entry of the graph under its id, which every caller has
  looked up and checked before the call; \<^verbatim>\<open>is_stable &= ...\<close> makes the recursive call
  whatever \<open>is_stable\<close> is.
\<close>

fun FormStronglyConnectedComponent ::
      "nat \<Rightarrow> TxnId \<Rightarrow> DeadlockResolver \<Rightarrow> (error + bool \<times> DeadlockResolver) option"
  and visit_redges ::
      "nat \<Rightarrow> TxnId list \<Rightarrow> bool \<Rightarrow> DeadlockResolver \<Rightarrow> (error + bool \<times> DeadlockResolver) option"
where
  "FormStronglyConnectedComponent 0 k r = None"
| "FormStronglyConnectedComponent (Suc fuel) k r =
     (case aux_graph r k of
        None \<Rightarrow> Some (Inl (CheckFailed ''Corrupted auxiliary graph. Unknown node''))
      | Some node \<Rightarrow>
          visit_redges fuel (redges node) (node_is_complete node)
            (r\<lparr>ssc := ssc r @ [node_id node],
               aux_graph := (aux_graph r)(k \<mapsto> node\<lparr>comp_type := STABLE\<rparr>)\<rparr>))"
| "visit_redges fuel [] is_stable r = Some (Inr (is_stable, r))"
| "visit_redges fuel (n # ns) is_stable r =
     (case aux_graph r n of
        None \<Rightarrow> Some (Inl (CheckFailed ''Corrupted auxiliary graph. Unknown node''))
      | Some neighbor \<Rightarrow>
          (case comp_type neighbor of
             UNASSIGNED \<Rightarrow>
               (case FormStronglyConnectedComponent fuel n r of
                  None \<Rightarrow> None
                | Some (Inl e) \<Rightarrow> Some (Inl e)
                | Some (Inr (b, r1)) \<Rightarrow> visit_redges fuel ns (is_stable \<and> b) r1)
           | UNSTABLE \<Rightarrow> visit_redges fuel ns False r
           | STABLE \<Rightarrow> visit_redges fuel ns is_stable r))"

text \<open>
  \<open>ResolveDeadlock\<close>. \<open>rewrite_slots\<close> is the loop over the slots \<open>j\<close> of the waited-by list
  of the member \<open>s ! i\<close>; \<^verbatim>\<open>std::binary_search\<close> on the sorted component is membership. The
  entries of \<open>s ! (i + 1)\<close> and of the head \<open>s ! 0\<close> are dereferenced without a check in the
  source; \<open>UndefinedBehaviour\<close> is the result where they would not exist. The check of the
  size of the component is a \<^verbatim>\<open>DCHECK\<close>.
\<close>

fun rewrite_slots ::
  "TxnId list \<Rightarrow> nat \<Rightarrow> nat list \<Rightarrow> bool \<Rightarrow> TxnInfoTable \<Rightarrow> error + bool \<times> TxnInfoTable" where
  "rewrite_slots s i [] new_edge_added tbl = Inr (new_edge_added, tbl)"
| "rewrite_slots s i (j # js) new_edge_added tbl =
     (let txn = entry tbl (s ! i); w = waited_by txn ! j
      in if w \<in> set s then
           (case tbl w of
              None \<Rightarrow> Inl (CheckFailed ''waiting_txn != txn_info_.end()'')
            | Some waiting_txn0 \<Rightarrow>
                if \<not> new_edge_added then
                  (let tbl1 = tbl(s ! i \<mapsto> txn\<lparr>waited_by := (waited_by txn)[j := s ! (i + 1)]\<rparr>)
                   in case tbl1 (s ! (i + 1)) of
                        None \<Rightarrow> Inl UndefinedBehaviour
                      | Some nxt \<Rightarrow>
                          (let tbl2 = tbl1(s ! (i + 1) \<mapsto> nxt\<lparr>num_waiting_for := num_waiting_for nxt + 1\<rparr>);
                               waiting_txn = entry tbl2 w;
                               tbl3 = tbl2(w \<mapsto> waiting_txn\<lparr>num_waiting_for := num_waiting_for waiting_txn - 1\<rparr>)
                           in rewrite_slots s i js True tbl3))
                else
                  (let tbl1 = tbl(s ! i \<mapsto> txn\<lparr>waited_by := (waited_by txn)[j := kSentinelTxnId]\<rparr>);
                       waiting_txn = entry tbl1 w;
                       tbl3 = tbl1(w \<mapsto> waiting_txn\<lparr>num_waiting_for := num_waiting_for waiting_txn - 1\<rparr>)
                   in rewrite_slots s i js True tbl3))
         else rewrite_slots s i js new_edge_added tbl)"

definition resolve_member :: "TxnId list \<Rightarrow> nat \<Rightarrow> TxnInfoTable \<Rightarrow> error + TxnInfoTable" where
  "resolve_member s i tbl =
     (case tbl (s ! i) of
        None \<Rightarrow> Inl (CheckFailed ''SSC contains unknown txn'')
      | Some txn \<Rightarrow>
          if \<not> is_complete txn then Inl (CheckFailed ''SSC contains incomplete txn'')
          else
            (case rewrite_slots s i [0..<length (waited_by txn)] (i = length s - 1) tbl of
               Inl e \<Rightarrow> Inl e
             | Inr (new_edge_added, tbl1) \<Rightarrow>
                 if new_edge_added then Inr tbl1
                 else Inl (CheckFailed ''Cannot find slot to add new edge'')))"

fun resolve_members :: "TxnId list \<Rightarrow> nat list \<Rightarrow> TxnInfoTable \<Rightarrow> error + TxnInfoTable" where
  "resolve_members s [] tbl = Inr tbl"
| "resolve_members s (i # is) tbl =
     (case resolve_member s i tbl of Inl e \<Rightarrow> Inl e | Inr tbl1 \<Rightarrow> resolve_members s is tbl1)"

definition ResolveDeadlock :: "DeadlockResolver \<Rightarrow> error + TxnId option \<times> DeadlockResolver" where
  "ResolveDeadlock r =
     (if length (ssc r) < 2 then Inl (CheckFailed ''DCHECK_GE(ssc_.size(), 2)'')
      else
        (let s = sort (ssc r)
         in case resolve_members s (rev [0..<length s]) (snapshot r) of
              Inl e \<Rightarrow> Inl e
            | Inr tbl \<Rightarrow>
                (case tbl (s ! 0) of
                   None \<Rightarrow> Inl UndefinedBehaviour
                 | Some head_txn \<Rightarrow>
                     Inr (if is_ready head_txn then Some (s ! 0) else None,
                          r\<lparr>ssc := s, snapshot := tbl\<rparr>))))"

text \<open>
  The second loop of \<^verbatim>\<open>Loop\<close>, over the topological order. \<open>mark_unstable\<close> sets the members
  of an unstable component to \<open>UNSTABLE\<close>.
\<close>

fun mark_unstable :: "TxnId list \<Rightarrow> (TxnId \<rightharpoonup> Node) \<Rightarrow> error + (TxnId \<rightharpoonup> Node)" where
  "mark_unstable [] g = Inr g"
| "mark_unstable (t # ts) g =
     (case g t of
        None \<Rightarrow> Inl (CheckFailed ''DCHECK(node_it != aux_graph_.end())'')
      | Some nd \<Rightarrow> mark_unstable ts (g(t \<mapsto> nd\<lparr>comp_type := UNSTABLE\<rparr>)))"

fun form_components :: "nat \<Rightarrow> TxnId list \<Rightarrow> DeadlockResolver \<Rightarrow> (error + DeadlockResolver) option" where
  "form_components fuel [] r = Some (Inr r)"
| "form_components fuel (t # ts) r =
     (case aux_graph r t of
        None \<Rightarrow> Some (Inl (CheckFailed ''Topo order contains unknown txn''))
      | Some node \<Rightarrow>
          if comp_type node = UNASSIGNED then
            (case FormStronglyConnectedComponent fuel t (r\<lparr>ssc := []\<rparr>) of
               None \<Rightarrow> None
             | Some (Inl e) \<Rightarrow> Some (Inl e)
             | Some (Inr (is_stable, r1)) \<Rightarrow>
                 if \<not> is_stable then
                   (case mark_unstable (ssc r1) (aux_graph r1) of
                      Inl e \<Rightarrow> Some (Inl e)
                    | Inr g \<Rightarrow> form_components fuel ts (r1\<lparr>aux_graph := g\<rparr>))
                 else if length (ssc r1) > 1 then
                   (case ResolveDeadlock r1 of
                      Inl e \<Rightarrow> Some (Inl e)
                    | Inr (ready, r2) \<Rightarrow>
                        form_components fuel ts
                          (r2\<lparr>new_ready_txns :=
                                (case ready of
                                   None \<Rightarrow> new_ready_txns r2
                                 | Some t0 \<Rightarrow> new_ready_txns r2 @ [t0]),
                              to_be_updated := to_be_updated r2 @ ssc r2\<rparr>))
                 else form_components fuel ts r1)
          else form_components fuel ts r)"

text \<open>
  The write-back: \<^verbatim>\<open>std::copy\<close> writes the resolved list over the front of the live list,
  which has to be at least as long, and the counter is replaced.
\<close>

fun write_back :: "TxnId list \<Rightarrow> TxnInfoTable \<Rightarrow> TxnInfoTable \<Rightarrow> error + TxnInfoTable" where
  "write_back [] snap live = Inr live"
| "write_back (t # ts) snap live =
     (case snap t of
        None \<Rightarrow> Inl (CheckFailed ''DCHECK(new_txn_it != txn_info_.end())'')
      | Some new_txn \<Rightarrow>
          (case live t of
             None \<Rightarrow> Inl (CheckFailed ''DCHECK(txn_it != lm_.txn_info_.end())'')
           | Some txn \<Rightarrow>
               if length (waited_by txn) < length (waited_by new_txn) then Inl UndefinedBehaviour
               else write_back ts snap
                      (live(t \<mapsto> txn\<lparr>waited_by := waited_by new_txn
                                           @ drop (length (waited_by new_txn)) (waited_by txn),
                                       num_waiting_for := num_waiting_for new_txn\<rparr>))))"

text \<open>
  One pass of the resolver on a lock manager that no other thread changes meanwhile. The
  result has the lock manager after the pass and whether the signal was sent.
\<close>

definition Loop ::
  "nat \<Rightarrow> TxnId list \<Rightarrow> DDRLockManager \<Rightarrow> (error + bool \<times> DDRLockManager) option" where
  "Loop fuel order lm =
     (let r0 = \<lparr>snapshot = txn_info lm, aux_graph = Map.empty, topo_order = [], ssc = [],
                to_be_updated = [], new_ready_txns = []\<rparr>
      in case find_topo_order fuel order r0 of
           None \<Rightarrow> None
         | Some (Inl e) \<Rightarrow> Some (Inl e)
         | Some (Inr r1) \<Rightarrow>
             (let r2 = r1\<lparr>topo_order := rev (topo_order r1)\<rparr>
              in case form_components fuel (topo_order r2) r2 of
                   None \<Rightarrow> None
                 | Some (Inl e) \<Rightarrow> Some (Inl e)
                 | Some (Inr r3) \<Rightarrow>
                     (case write_back (to_be_updated r3) (snapshot r3) (txn_info lm) of
                        Inl e \<Rightarrow> Some (Inl e)
                      | Inr tbl \<Rightarrow>
                          Some (Inr (new_ready_txns r3 \<noteq> [],
                                     lm\<lparr>txn_info := tbl,
                                        ready_txns := ready_txns lm @ new_ready_txns r3\<rparr>)))))"

text \<open>
  The same count without the list of one transaction \<open>u\<close>, the counter of a transaction
  (0 for one that is not in the table), and the balance of a table: it is finite, and the
  counter of every transaction other than the sentinel is the number of its occurrences.
\<close>

definition occ_rest :: "TxnInfoTable \<Rightarrow> TxnId \<Rightarrow> TxnId \<Rightarrow> int" where
  "occ_rest tbl u t = (\<Sum>v \<in> dom tbl - {u}. int (count_list (waited_by (entry tbl v)) t))"

definition nwf :: "TxnInfoTable \<Rightarrow> TxnId \<Rightarrow> int" where
  "nwf tbl t = (case tbl t of None \<Rightarrow> 0 | Some i \<Rightarrow> num_waiting_for i)"

definition balanced :: "TxnInfoTable \<Rightarrow> bool" where
  "balanced tbl = (finite (dom tbl)
     \<and> (\<forall>t. t \<noteq> kSentinelTxnId \<longrightarrow> occurrences tbl t = nwf tbl t))"

text \<open>Transactions used in examples: single keys \<open>a\<close> and \<open>b\<close>, mastered at replicas 0 and 1.\<close>

definition holder :: "TxnId \<Rightarrow> (Key \<times> LockMode) list \<Rightarrow> TxnHolder" where
  "holder t keys =
     \<lparr>txn_id = t, keys_in_partition = keys, is_remaster = False,
      master_metadata = [[0x61] \<mapsto> 0, [0x62] \<mapsto> 1, [0x63] \<mapsto> 0], new_master = 0,
      is_new_master_lock_only = False\<rparr>"

section \<open>Sequencer (src/module/sequencer.cpp)\<close>

text \<open>
  What the sequencer reads and writes of a transaction: the id, the timestamp and the two
  arrival times of its internal part, the status and the abort reason. Times are counts
  of nanoseconds in 64-bit signed integers (\<^verbatim>\<open>int64\<close> fields, and the count of the clock):
  they are \<open>64 word\<close> here, read as signed integers by \<open>sint\<close>. The recording of events
  (\<^verbatim>\<open>RECORD\<close>) is compiled out unless \<^verbatim>\<open>ENABLE_TXN_EVENT_RECORDING\<close> is defined and is not
  modelled.
\<close>

datatype TransactionStatus = NOT_STARTED | COMMITTED | ABORTED













section \<open>The effect of resolving a component\<close>

text \<open>
  What one pass over the slots of a member does to its waited-by list: the first slot that
  holds a member of the component \<open>s\<close> gets the new edge \<open>nx\<close>, unless the edge was added
  already (\<open>added\<close>), and every other slot that holds a member gets the sentinel.
\<close>

fun rewrite_list :: "TxnId list \<Rightarrow> TxnId \<Rightarrow> bool \<Rightarrow> TxnId list \<Rightarrow> TxnId list" where
  "rewrite_list s nx added [] = []"
| "rewrite_list s nx added (w # ws) =
     (if w \<in> set s then (if added then kSentinelTxnId else nx) # rewrite_list s nx True ws
      else w # rewrite_list s nx added ws)"

text \<open>
  A change of a table that adds \<open>d x\<close> to the counter of every transaction \<open>x\<close> and maps
  the waited-by list of \<open>x\<close> by \<open>f x\<close>; the number of the slots of a list that hold \<open>x\<close>, a
  member of \<open>s\<close>.
\<close>

definition effect ::
  "(TxnId \<Rightarrow> TxnId list \<Rightarrow> TxnId list) \<Rightarrow> (TxnId \<Rightarrow> int) \<Rightarrow> TxnInfoTable \<Rightarrow> TxnInfoTable" where
  "effect f d tbl =
     (\<lambda>x. map_option (\<lambda>info. info\<lparr>num_waiting_for := num_waiting_for info + d x,
                                     waited_by := f x (waited_by info)\<rparr>) (tbl x))"

definition member_count :: "TxnId list \<Rightarrow> TxnId list \<Rightarrow> TxnId \<Rightarrow> int" where
  "member_count s ws x = int (count_list (filter (\<lambda>w. w \<in> set s) ws) x)"

text \<open>
  The change that resolving the member \<open>s ! i\<close> makes, and the change that resolving the
  members with the indices \<open>is\<close>, in this order, makes.
\<close>

definition member_F :: "TxnId list \<Rightarrow> nat \<Rightarrow> TxnId \<Rightarrow> TxnId list \<Rightarrow> TxnId list" where
  "member_F s i x l =
     (if x = s ! i then rewrite_list s (s ! (i + 1)) (i = length s - 1) l else l)"

definition member_D :: "TxnId list \<Rightarrow> TxnInfoTable \<Rightarrow> nat \<Rightarrow> TxnId \<Rightarrow> int" where
  "member_D s tbl i x =
     (if i \<noteq> length s - 1 \<and> x = s ! (i + 1) then 1 else 0)
     - member_count s (waited_by (entry tbl (s ! i))) x"

fun members_F :: "TxnId list \<Rightarrow> nat list \<Rightarrow> TxnId \<Rightarrow> TxnId list \<Rightarrow> TxnId list" where
  "members_F s [] x l = l"
| "members_F s (i # is) x l = members_F s is x (member_F s i x l)"

fun members_D :: "TxnId list \<Rightarrow> TxnInfoTable \<Rightarrow> nat list \<Rightarrow> TxnId \<Rightarrow> int" where
  "members_D s tbl [] x = 0"
| "members_D s tbl (i # is) x = member_D s tbl i x + members_D s tbl is x"

text \<open>
  What the resolution of the members \<open>is\<close> needs: the members are distinct and in the table,
  and those still to resolve are complete and have a slot that holds a member.
\<close>

definition member_ok :: "TxnId list \<Rightarrow> TxnInfoTable \<Rightarrow> nat \<Rightarrow> bool" where
  "member_ok s tbl i =
     (i < length s
      \<and> (\<exists>info. tbl (s ! i) = Some info \<and> is_complete info
            \<and> (\<exists>w \<in> set (waited_by info). w \<in> set s)))"

definition resolvable :: "TxnId list \<Rightarrow> nat list \<Rightarrow> TxnInfoTable \<Rightarrow> bool" where
  "resolvable s is tbl =
     (distinct s \<and> distinct is \<and> (\<forall>t \<in> set s. tbl t \<noteq> None)
      \<and> (\<forall>i \<in> set is. member_ok s tbl i))"

text \<open>
  A component as \<open>ResolveDeadlock\<close> expects it: at least two distinct transactions, each in
  the table, complete, and waited for by a member of the component (a slot of its
  waited-by list holds a member), as it is in a strongly connected component of two or
  more transactions. \<open>resolved\<close> is the table after the resolution of the sorted component
  and \<open>component_occurrences\<close> the number of slots in the lists of the members that hold \<open>x\<close>.
\<close>

definition is_component :: "TxnId list \<Rightarrow> TxnInfoTable \<Rightarrow> bool" where
  "is_component c tbl =
     (2 \<le> length c \<and> distinct c
      \<and> (\<forall>t \<in> set c. \<exists>info. tbl t = Some info \<and> is_complete info
                           \<and> (\<exists>w \<in> set (waited_by info). w \<in> set c)))"

definition resolved :: "TxnId list \<Rightarrow> TxnInfoTable \<Rightarrow> TxnInfoTable" where
  "resolved s tbl =
     effect (members_F s (rev [0..<length s])) (members_D s tbl (rev [0..<length s])) tbl"

definition component_occurrences :: "TxnId list \<Rightarrow> TxnInfoTable \<Rightarrow> TxnId \<Rightarrow> int" where
  "component_occurrences s tbl x = (\<Sum>t\<leftarrow>s. int (count_list (waited_by (entry tbl t)) x))"

text \<open>
  Examples: the table of two transactions that wait for each other, a resolver that has
  the component \<open>c\<close> of the table \<open>tbl\<close>, and the calls that make a cycle of the transactions
  1 and 2 while 1 also waits for 3, which holds the key \<open>c\<close>.
\<close>

definition two_cycle_table :: TxnInfoTable where
  "two_cycle_table =
     [1 \<mapsto> \<lparr>info_id = 1, unarrived_lock_requests = 0, num_waiting_for = 1, waited_by = [2]\<rparr>,
      2 \<mapsto> \<lparr>info_id = 2, unarrived_lock_requests = 0, num_waiting_for = 1, waited_by = [1]\<rparr>]"

definition resolver_at :: "TxnInfoTable \<Rightarrow> TxnId list \<Rightarrow> DeadlockResolver" where
  "resolver_at tbl c = \<lparr>snapshot = tbl, aux_graph = Map.empty, topo_order = [], ssc = c,
                         to_be_updated = [], new_ready_txns = []\<rparr>"

definition blocked_cycle :: "lm_call list" where
  "blocked_cycle = [Accept (holder 3 [([0x63], WRITE)]), Acquire (holder 3 [([0x63], WRITE)]),
      Accept (holder 1 [([0x61], WRITE), ([0x63], WRITE), ([0x62], READ)]),
      Acquire (holder 1 [([0x61], WRITE), ([0x63], WRITE)]),
      Accept (holder 2 [([0x62], WRITE), ([0x61], READ)]),
      Acquire (holder 2 [([0x62], WRITE)]),
      Acquire (holder 1 [([0x62], READ)]),
      Acquire (holder 2 [([0x61], READ)])]"

section \<open>The wait-for graph of a snapshot and a pass of the resolver\<close>

text \<open>
  A table as the resolver expects its snapshot: it is finite, every entry is stored under
  its own id, and every id in a waited-by list, the sentinel apart, is in the table (the
  first traversal fails its check \<^verbatim>\<open>Corrupted graph\<close> on any other table). The edges of the
  wait-for graph lead from a transaction to those that wait for it; \<open>same_scc\<close> says that
  two transactions reach each other, and \<open>scc_of\<close> is the strongly connected component of
  a transaction.
\<close>

definition wf_table :: "TxnInfoTable \<Rightarrow> bool" where
  "wf_table tbl =
     (finite (dom tbl)
      \<and> (\<forall>t i. tbl t = Some i \<longrightarrow>
            info_id i = t
            \<and> (\<forall>n \<in> set (waited_by i). n \<noteq> kSentinelTxnId \<longrightarrow> tbl n \<noteq> None)))"

definition edges :: "TxnInfoTable \<Rightarrow> (TxnId \<times> TxnId) set" where
  "edges tbl = {(t, n). \<exists>i. tbl t = Some i \<and> n \<in> set (waited_by i) \<and> n \<noteq> kSentinelTxnId}"

definition same_scc :: "TxnInfoTable \<Rightarrow> TxnId \<Rightarrow> TxnId \<Rightarrow> bool" where
  "same_scc tbl x y = ((x, y) \<in> (edges tbl)\<^sup>* \<and> (y, x) \<in> (edges tbl)\<^sup>*)"

definition scc_of :: "TxnInfoTable \<Rightarrow> TxnId \<Rightarrow> TxnId set" where
  "scc_of tbl x = {y. same_scc tbl x y}"

definition preds :: "TxnInfoTable \<Rightarrow> TxnId \<Rightarrow> TxnId set" where
  "preds tbl n = {t. (t, n) \<in> edges tbl}"

definition complete :: "TxnInfoTable \<Rightarrow> TxnId \<Rightarrow> bool" where
  "complete tbl n = (\<exists>i. tbl n = Some i \<and> is_complete i)"

text \<open>
  What a pass computes, said without any order of traversal. A transaction is stable when
  every transaction that reaches it in the graph is complete; its component is resolved
  when it is stable and has two members or more. \<open>final_table\<close> is the table in which every
  such component has been rewritten by \<open>resolved\<close>, on its members in ascending order, and
  \<open>ready_heads\<close> are the smallest members of the resolved components that are ready
  afterwards.
\<close>

definition stable_txn :: "TxnInfoTable \<Rightarrow> TxnId \<Rightarrow> bool" where
  "stable_txn tbl x = (\<forall>m. (m, x) \<in> (edges tbl)\<^sup>* \<longrightarrow> complete tbl m)"

definition resolves :: "TxnInfoTable \<Rightarrow> TxnId \<Rightarrow> bool" where
  "resolves tbl x = (stable_txn tbl x \<and> 2 \<le> card (scc_of tbl x))"

definition final_table :: "TxnInfoTable \<Rightarrow> TxnInfoTable" where
  "final_table tbl =
     (\<lambda>x. if resolves tbl x then resolved (sorted_list_of_set (scc_of tbl x)) tbl x else tbl x)"

definition ready_heads :: "TxnInfoTable \<Rightarrow> TxnId set" where
  "ready_heads tbl =
     {x \<in> dom tbl. resolves tbl x \<and> x = sorted_list_of_set (scc_of tbl x) ! 0
                   \<and> is_ready (entry (final_table tbl) x)}"

text \<open>
  The first traversal. \<open>gray\<close> are the nodes that have been entered and not yet added to
  the order, \<open>white\<close> the transactions without a node, and \<open>recorded g t n\<close> says that the
  reverse edge from \<open>n\<close> to \<open>t\<close> is in the graph. \<open>finished_by T v u\<close> says that \<open>v\<close> is in the
  order \<open>T\<close> no later than \<open>u\<close>. The invariant of the order, \<open>kosaraju_inv\<close>: whatever a
  finished transaction \<open>u\<close> reaches has finished no later than some member of the component
  of \<open>u\<close>, unless a gray node is in the component of \<open>u\<close>.
\<close>

definition finished_by :: "TxnId list \<Rightarrow> TxnId \<Rightarrow> TxnId \<Rightarrow> bool" where
  "finished_by T v u = (\<exists>T1 T2. T = T1 @ u # T2 \<and> v \<in> set (T1 @ [u]))"

definition nodes_ok :: "TxnInfoTable \<Rightarrow> (TxnId \<rightharpoonup> Node) \<Rightarrow> bool" where
  "nodes_ok tbl g =
     (\<forall>n nd. g n = Some nd \<longrightarrow>
        node_id nd = n \<and> visited nd \<and> comp_type nd = UNASSIGNED
        \<and> (\<exists>i. tbl n = Some i \<and> node_is_complete nd = is_complete i)
        \<and> set (redges nd) \<subseteq> {t. (t, n) \<in> edges tbl})"

definition recorded :: "(TxnId \<rightharpoonup> Node) \<Rightarrow> TxnId \<Rightarrow> TxnId \<Rightarrow> bool" where
  "recorded g t n = (\<exists>nd. g n = Some nd \<and> t \<in> set (redges nd))"

definition gray :: "DeadlockResolver \<Rightarrow> TxnId set" where
  "gray r = dom (aux_graph r) - set (topo_order r)"

definition white :: "TxnInfoTable \<Rightarrow> DeadlockResolver \<Rightarrow> TxnId set" where
  "white tbl r = dom tbl - dom (aux_graph r)"

definition kosaraju_inv :: "TxnInfoTable \<Rightarrow> TxnId set \<Rightarrow> TxnId list \<Rightarrow> bool" where
  "kosaraju_inv tbl G T =
     (\<forall>u \<in> set T. \<forall>v. (u, v) \<in> (edges tbl)\<^sup>* \<longrightarrow>
        (\<exists>g \<in> G. same_scc tbl g u) \<or> (\<exists>u'. same_scc tbl u' u \<and> finished_by T v u'))"

text \<open>
  The invariant of the state of the resolver during the first traversal, what a call
  of \<open>FindTopoOrderAndTranspose\<close> may assume of its argument (it is gray, and every gray node
  reaches it), and what a call changes: the order grows by the new nodes and by \<open>extra\<close>,
  and no recorded edge is lost.
\<close>

definition inv1 :: "TxnInfoTable \<Rightarrow> DeadlockResolver \<Rightarrow> bool" where
  "inv1 tbl r =
     (snapshot r = tbl \<and> nodes_ok tbl (aux_graph r) \<and> distinct (topo_order r)
      \<and> set (topo_order r) \<subseteq> dom (aux_graph r)
      \<and> (\<forall>t \<in> set (topo_order r). \<forall>n. (t, n) \<in> edges tbl \<longrightarrow> recorded (aux_graph r) t n)
      \<and> kosaraju_inv tbl (gray r) (topo_order r))"

definition pre_dfs :: "TxnInfoTable \<Rightarrow> TxnInfo \<Rightarrow> DeadlockResolver \<Rightarrow> bool" where
  "pre_dfs tbl txn r =
     (wf_table tbl \<and> inv1 tbl r \<and> tbl (info_id txn) = Some txn \<and> info_id txn \<in> gray r
      \<and> (\<forall>g \<in> gray r. (g, info_id txn) \<in> (edges tbl)\<^sup>*))"

definition extends :: "TxnId set \<Rightarrow> DeadlockResolver \<Rightarrow> DeadlockResolver \<Rightarrow> bool" where
  "extends extra r r' =
     (dom (aux_graph r) \<subseteq> dom (aux_graph r')
      \<and> (\<exists>new. topo_order r' = topo_order r @ new
              \<and> set new = (dom (aux_graph r') - dom (aux_graph r)) \<union> extra)
      \<and> (\<forall>t n. recorded (aux_graph r) t n \<longrightarrow> recorded (aux_graph r') t n)
      \<and> ssc r' = ssc r \<and> to_be_updated r' = to_be_updated r
      \<and> new_ready_txns r' = new_ready_txns r)"

text \<open>
  The second traversal. \<open>graph_ok\<close> is the transposed graph that the first traversal has
  built: a node for every transaction, with all the edges into it. \<open>mark c N\<close> sets the
  component type of the nodes in \<open>N\<close>, and \<open>scc_state r newl\<close> is the state after the nodes
  \<open>newl\<close> have been added to the component and marked. \<open>stable_flag\<close> is the value that
  \<open>FormStronglyConnectedComponent\<close> returns for the nodes that it collects, and
  \<open>collected\<close> what it collects: unassigned nodes that reach the root, all of whose
  predecessors are collected or were assigned before.
\<close>

definition graph_ok :: "TxnInfoTable \<Rightarrow> (TxnId \<rightharpoonup> Node) \<Rightarrow> bool" where
  "graph_ok tbl g =
     (dom g = dom tbl
      \<and> (\<forall>n nd. g n = Some nd \<longrightarrow>
            node_id nd = n \<and> (\<exists>i. tbl n = Some i \<and> node_is_complete nd = is_complete i)
            \<and> set (redges nd) = preds tbl n))"

definition unassigned :: "(TxnId \<rightharpoonup> Node) \<Rightarrow> TxnId set" where
  "unassigned g = {n. \<exists>nd. g n = Some nd \<and> comp_type nd = UNASSIGNED}"

definition unstable :: "(TxnId \<rightharpoonup> Node) \<Rightarrow> TxnId \<Rightarrow> bool" where
  "unstable g n = (\<exists>nd. g n = Some nd \<and> comp_type nd = UNSTABLE)"

definition mark :: "ComponentType \<Rightarrow> TxnId set \<Rightarrow> (TxnId \<rightharpoonup> Node) \<Rightarrow> (TxnId \<rightharpoonup> Node)" where
  "mark c N g = (\<lambda>n. if n \<in> N then map_option (\<lambda>nd. nd\<lparr>comp_type := c\<rparr>) (g n) else g n)"

definition stable_flag :: "TxnInfoTable \<Rightarrow> (TxnId \<rightharpoonup> Node) \<Rightarrow> TxnId set \<Rightarrow> bool" where
  "stable_flag tbl g N = (\<forall>x \<in> N. complete tbl x \<and> (\<forall>y \<in> preds tbl x. \<not> unstable g y))"

definition scc_state :: "DeadlockResolver \<Rightarrow> TxnId list \<Rightarrow> DeadlockResolver" where
  "scc_state r newl =
     r\<lparr>ssc := ssc r @ newl, aux_graph := mark STABLE (set newl) (aux_graph r)\<rparr>"

definition closed_in :: "TxnInfoTable \<Rightarrow> (TxnId \<rightharpoonup> Node) \<Rightarrow> TxnId set \<Rightarrow> bool" where
  "closed_in tbl g N = (\<forall>x \<in> N. \<forall>y \<in> preds tbl x. y \<notin> unassigned g - N)"

definition collected ::
  "TxnInfoTable \<Rightarrow> (TxnId \<rightharpoonup> Node) \<Rightarrow> TxnId \<Rightarrow> TxnId list \<Rightarrow> bool" where
  "collected tbl g target newl =
     (distinct newl \<and> set newl \<subseteq> unassigned g
      \<and> (\<forall>w \<in> set newl. (w, target) \<in> (edges tbl)\<^sup>*)
      \<and> closed_in tbl g (set newl))"

text \<open>
  The invariant of the loop over the topological order \<open>rev T\<close>, of which \<open>ts\<close> is still to
  visit: the unassigned nodes are among \<open>ts\<close> and are whole components, an assigned node
  is \<open>STABLE\<close> exactly when its transaction is stable, the snapshot is the final table on
  the assigned transactions and the table of the start on the others, and the two lists
  of results hold what has been resolved so far. \<open>initial_resolver\<close> is the state in which
  \<open>Loop\<close> starts.
\<close>

definition fc_inv :: "TxnInfoTable \<Rightarrow> TxnId list \<Rightarrow> TxnId list \<Rightarrow> DeadlockResolver \<Rightarrow> bool" where
  "fc_inv tbl T ts r =
     (graph_ok tbl (aux_graph r) \<and> unassigned (aux_graph r) \<subseteq> set ts
      \<and> (\<exists>done0. rev T = done0 @ ts)
      \<and> (\<forall>x y. same_scc tbl x y \<longrightarrow> x \<in> unassigned (aux_graph r)
             \<longrightarrow> y \<in> unassigned (aux_graph r))
      \<and> (\<forall>x nd. aux_graph r x = Some nd \<longrightarrow> comp_type nd \<noteq> UNASSIGNED \<longrightarrow>
             comp_type nd = (if stable_txn tbl x then STABLE else UNSTABLE))
      \<and> snapshot r = (\<lambda>x. if x \<in> unassigned (aux_graph r) then tbl x else final_table tbl x)
      \<and> set (to_be_updated r) = {x \<in> dom tbl - unassigned (aux_graph r). resolves tbl x}
      \<and> set (new_ready_txns r) = {x \<in> ready_heads tbl. x \<notin> unassigned (aux_graph r)})"

definition initial_resolver :: "TxnInfoTable \<Rightarrow> DeadlockResolver" where
  "initial_resolver tbl =
     \<lparr>snapshot = tbl, aux_graph = Map.empty, topo_order = [], ssc = [],
      to_be_updated = [], new_ready_txns = []\<rparr>"

text \<open>
  Examples: the table of the three transactions that the calls \<open>blocked_cycle\<close> leave, in
  which 1 and 2 wait for each other and 1 also waits for 3, and a lock manager that has a
  given table.
\<close>

definition blocked_table :: TxnInfoTable where
  "blocked_table =
     [1 \<mapsto> \<lparr>info_id = 1, unarrived_lock_requests = 0, num_waiting_for = 2, waited_by = [2]\<rparr>,
      2 \<mapsto> \<lparr>info_id = 2, unarrived_lock_requests = 0, num_waiting_for = 1, waited_by = [1]\<rparr>,
      3 \<mapsto> \<lparr>info_id = 3, unarrived_lock_requests = 0, num_waiting_for = 0, waited_by = [1]\<rparr>]"

definition manager_of :: "TxnInfoTable \<Rightarrow> DDRLockManager" where
  "manager_of tbl = new_DDRLockManager\<lparr>txn_info := tbl\<rparr>"

section \<open>Invariant of a run of AsyncLog\<close>

text \<open>
  After \<open>k\<close> items have been delivered from a log started at \<open>start\<close>, the delivered
  positions are those from \<open>start\<close> up to, and not including, \<open>start + k\<close>; the log holds
  what was inserted (\<open>ins\<close>) and not yet delivered.
\<close>

definition delivered :: "32 word \<Rightarrow> nat \<Rightarrow> 32 word \<Rightarrow> bool" where
  "delivered start k p = (unat start \<le> unat p \<and> unat p < unat start + k)"

definition log_inv :: "32 word \<Rightarrow> nat \<Rightarrow> (32 word \<times> 'a) list \<Rightarrow> 'a AsyncLog \<Rightarrow> bool" where
  "log_inv start k ins l =
     (al_next l = start + of_nat k \<and> unat start + k \<le> 2 ^ 32
      \<and> al_log l = (\<lambda>p. if delivered start k p then None else map_of ins p)
      \<and> (\<forall>p. delivered start k p \<longrightarrow> p \<in> fst ` set ins)
      \<and> (\<forall>p \<in> fst ` set ins. start \<le> p))"

section \<open>Properties of AsyncLog\<close>

lemma unat_next:
  assumes "unat (start::32 word) + k < 2 ^ 32"
  shows "unat (start + of_nat k) = unat start + k"
  using assms by (simp add: unat_word_ariths unat_of_nat take_bit_eq_mod)

lemma next_wrapped:
  assumes "unat (start::32 word) + k = 2 ^ 32"
  shows "start + of_nat k = 0"
proof -
  have "unat (start + of_nat k) = (unat start + k) mod 2 ^ 32"
    by (simp add: unat_word_ariths unat_of_nat take_bit_eq_mod mod_simps)
  then have "unat (start + of_nat k) = 0" using assms by simp
  then show ?thesis by (simp add: unat_eq_0)
qed

lemma log_inv_insert:
  assumes inv: "log_inv start k ins l" and ge: "start \<le> p" and new: "p \<notin> fst ` set ins"
  shows "Insert p x l = Inr (l\<lparr>al_log := (al_log l)(p \<mapsto> x)\<rparr>)"
    and "log_inv start k ((p, x) # ins) (l\<lparr>al_log := (al_log l)(p \<mapsto> x)\<rparr>)"
proof -
  have nd: "\<not> delivered start k p" using inv new by (auto simp: log_inv_def)
  have "\<not> p < al_next l"
  proof
    assume lt: "p < al_next l"
    show False
    proof (cases "unat start + k = 2 ^ 32")
      case True
      then have "al_next l = 0" using inv next_wrapped by (simp add: log_inv_def)
      with lt show False by simp
    next
      case False
      then have "unat start + k < 2 ^ 32" using inv by (simp add: log_inv_def)
      then have "unat (al_next l) = unat start + k" using inv unat_next by (simp add: log_inv_def)
      with lt ge have "delivered start k p" by (simp add: delivered_def word_less_nat_alt word_le_nat_alt)
      with nd show False by simp
    qed
  qed
  moreover have "al_log l p = None"
    using inv new nd by (auto simp: log_inv_def map_of_eq_None_iff)
  ultimately show "Insert p x l = Inr (l\<lparr>al_log := (al_log l)(p \<mapsto> x)\<rparr>)"
    by (simp add: Insert_def)
  show "log_inv start k ((p, x) # ins) (l\<lparr>al_log := (al_log l)(p \<mapsto> x)\<rparr>)"
    using inv nd ge by (auto simp: log_inv_def fun_eq_iff)
qed

lemma log_inv_lookup:
  assumes inv: "log_inv start k ins l" and lap: "start \<noteq> 0 \<or> k < 2 ^ 32"
  shows "al_log l (al_next l) = map_of ins (start + of_nat k)"
proof -
  have "\<not> delivered start k (start + of_nat k)"
  proof (cases "unat start + k = 2 ^ 32")
    case True
    then have z: "start + of_nat k = 0" by (rule next_wrapped)
    have "start \<noteq> 0" using lap True by (auto simp: unat_eq_0)
    then have "unat start \<noteq> 0" by (simp add: unat_eq_0)
    then show ?thesis by (simp add: z delivered_def)
  next
    case False
    then have "unat start + k < 2 ^ 32" using inv by (simp add: log_inv_def)
    then show ?thesis by (simp add: delivered_def unat_next)
  qed
  then show ?thesis using inv by (simp add: log_inv_def)
qed

lemma log_inv_next:
  assumes inv: "log_inv start k ins l" and some: "map_of ins (start + of_nat k) = Some x"
    and lap: "start \<noteq> 0 \<or> k < 2 ^ 32"
  shows "log_inv start (Suc k) ins \<lparr>al_log = (al_log l)(al_next l := None), al_next = al_next l + 1\<rparr>"
proof -
  have mem: "start + of_nat k \<in> fst ` set ins"
    using some by (metis map_of_eq_None_iff option.distinct(1))
  have lt: "unat start + k < 2 ^ 32"
  proof (rule ccontr)
    assume "\<not> unat start + k < 2 ^ 32"
    then have e: "unat start + k = 2 ^ 32" using inv by (simp add: log_inv_def)
    then have z: "start + of_nat k = 0" by (rule next_wrapped)
    with mem inv have "start \<le> 0" by (auto simp: log_inv_def)
    then have "start = 0" by simp
    then have "k = 2 ^ 32" using e by simp
    with lap \<open>start = 0\<close> show False by simp
  qed
  have u: "unat (start + of_nat k) = unat start + k" using lt by (rule unat_next)
  have d: "delivered start (Suc k) p \<longleftrightarrow> delivered start k p \<or> p = start + of_nat k" for p
  proof -
    have "unat p = unat start + k \<longleftrightarrow> p = start + of_nat k"
      using u by (auto simp: word_unat_eq_iff)
    then show ?thesis by (auto simp: delivered_def)
  qed
  show ?thesis
    using inv mem lt by (auto simp: log_inv_def d fun_eq_iff add.assoc)
qed

lemma in_order_refines:
  assumes "log_inv start k ins l"
    and "distinct (map fst (inserted cs))"
    and "fst ` set (inserted cs) \<inter> fst ` set ins = {}"
    and "\<forall>p \<in> fst ` set (inserted cs). start \<le> p"
    and "start \<noteq> 0 \<or> k + length cs < 2 ^ 32"
  shows "fst (run_calls to_T to_uint32 cs l)
           = map (converted to_T to_uint32) (in_order start k ins cs)"
  using assms
proof (induction cs arbitrary: k ins l)
  case Nil
  then show ?case by simp
next
  case (Cons c cs)
  show ?case
  proof (cases c)
    case (CallInsert p x)
    let ?l = "l\<lparr>al_log := (al_log l)(p \<mapsto> x)\<rparr>"
    have ge: "start \<le> p" and new: "p \<notin> fst ` set ins"
      using Cons.prems CallInsert by auto
    note ins = log_inv_insert[OF Cons.prems(1) ge new, of x]
    have "fst (run_calls to_T to_uint32 cs ?l)
            = map (converted to_T to_uint32) (in_order start k ((p, x) # ins) cs)"
    proof (rule Cons.IH[OF ins(2)])
      show "distinct (map fst (inserted cs))" using Cons.prems CallInsert by simp
      show "fst ` set (inserted cs) \<inter> fst ` set ((p, x) # ins) = {}"
        using Cons.prems(2,3) CallInsert by auto
      show "\<forall>p\<in>fst ` set (inserted cs). start \<le> p" using Cons.prems CallInsert by simp
      show "start \<noteq> 0 \<or> k + length cs < 2 ^ 32" using Cons.prems(5) by auto
    qed
    then show ?thesis using CallInsert ins(1) by (simp add: split_beta)
  next
    case CallNext
    have lap: "start \<noteq> 0 \<or> k < 2 ^ 32" using Cons.prems(5) by auto
    note look = log_inv_lookup[OF Cons.prems(1) lap]
    have nx: "al_next l = start + of_nat k" using Cons.prems(1) by (simp add: log_inv_def)
    show ?thesis
    proof (cases "map_of ins (start + of_nat k)")
      case None
      have "fst (run_calls to_T to_uint32 cs l)
              = map (converted to_T to_uint32) (in_order start k ins cs)"
        by (rule Cons.IH) (use Cons.prems CallNext in auto)
      then show ?thesis using CallNext None look by (simp add: Next_def split_beta)
    next
      case (Some x)
      let ?l = "\<lparr>al_log = (al_log l)(al_next l := None), al_next = al_next l + 1\<rparr>"
      have "fst (run_calls to_T to_uint32 cs ?l)
              = map (converted to_T to_uint32) (in_order start (Suc k) ins cs)"
        by (rule Cons.IH[OF log_inv_next[OF Cons.prems(1) Some lap]]) (use Cons.prems CallNext in auto)
      then show ?thesis using CallNext Some look nx by (simp add: Next_def split_beta Let_def)
    qed
  qed
qed

lemma log_inv_init: "log_inv start 0 [] (AsyncLog start)"
proof -
  have "unat start < 2 ^ 32" by (rule order_less_le_trans[OF unsigned_less]) simp
  then show ?thesis by (simp add: log_inv_def AsyncLog_def delivered_def fun_eq_iff)
qed


text \<open>
  Apart from the conversion of the pair, the reads are in order: in a run on a log
  started at \<open>start\<close> in which the inserted positions are distinct and not below \<open>start\<close>,
  every insert stores its item, the read that follows \<open>k\<close> deliveries takes the position
  \<open>start + k\<close> and the item inserted there, and it fails exactly when nothing has been
  inserted there so far. What it returns is the pair \<open>converted\<close>.
\<close>

lemma run_calls_in_order:
  assumes "distinct (map fst (inserted cs))"
    and "\<forall>p \<in> fst ` set (inserted cs). start \<le> p"
    and "start \<noteq> 0 \<or> length cs < 2 ^ 32"
  shows "fst (run_calls to_T to_uint32 cs (AsyncLog start))
           = map (converted to_T to_uint32) (in_order start 0 [] cs)"
  using in_order_refines[OF log_inv_init, of cs start] assms by simp







lemma ucast_item: "(ucast (0x100000009 :: 64 word) :: 32 word) = 9"
  by code_simp


text \<open>
  C5. The claim fails in the code: \<^verbatim>\<open>Next\<close> does not return the item that was inserted. Its
  return type \<^verbatim>\<open>std::pair<T, uint32_t>\<close> has the components the other way round than the
  pair that it builds, so the caller receives the position converted to \<^verbatim>\<open>T\<close> and the
  item converted to \<^verbatim>\<open>uint32_t\<close>. On a log of \<^verbatim>\<open>uint64_t\<close> started at 5, after
  \<^verbatim>\<open>Insert(5, 0x100000009)\<close>, the call of \<^verbatim>\<open>Next\<close> returns the pair of 5 and 9, where the
  specification has the position 5 with the item \<^verbatim>\<open>0x100000009\<close>.
\<close>

theorem AsyncLog_Next_converts_item:
  "fst (run_calls ucast ucast [CallInsert 5 (0x100000009 :: 64 word), CallNext] (AsyncLog 5))
     = [Stored, Yielded 5 9]
   \<and> in_order 5 0 [] [CallInsert 5 (0x100000009 :: 64 word), CallNext]
     = [Stored, Yielded 5 0x100000009]"
  by (simp add: Next_def Insert_def AsyncLog_def ucast_item)




section \<open>Properties of LockQueueTail\<close>

text \<open>
  C7. A write request returns the transactions it has to wait for and then takes the
  tail: with no read requesters it returns the previous write requester alone, or nothing
  when there is none; with read requesters it returns exactly them, without the previous
  write requester, and clears them. Either way the write requester is the new
  transaction afterwards.
\<close>

theorem AcquireWriteLock_result:
  "AcquireWriteLock t q =
     (if read_lock_requesters q = []
      then (case write_lock_requester q of None \<Rightarrow> [] | Some w \<Rightarrow> [w])
      else read_lock_requesters q,
      \<lparr>write_lock_requester = Some t, read_lock_requesters = []\<rparr>)"
  by (cases q) (simp add: AcquireWriteLock_def split: option.split)

section \<open>Properties of the partitioner\<close>

lemma ucast_mod32: "(ucast ((x :: 64 word) mod 0x100000000) :: 32 word) = ucast x"
proof -
  have "x mod 0x100000000 = take_bit 32 x"
    using take_bit_eq_mod[of 32 x] by simp
  then show ?thesis
    by (simp add: bit_eq_iff bit_simps) 
qed

lemma ucast_mult32: "(ucast ((x :: 64 word) * y) :: 32 word) = ucast x * ucast y"
proof -
  have d: "(2::nat) ^ 32 dvd 2 ^ 64" by (rule le_imp_power_dvd) simp
  have "unat (ucast (x * y) :: 32 word) = (unat x * unat y mod 2 ^ 64) mod 2 ^ 32"
    by (simp add: unsigned_ucast_eq unat_word_ariths take_bit_eq_mod)
  also have "\<dots> = unat x * unat y mod 2 ^ 32"
    using d by (rule mod_mod_cancel)
  also have "\<dots> = unat (ucast x * ucast y :: 32 word)"
    by (simp add: unsigned_ucast_eq unat_word_ariths take_bit_eq_mod mod_mult_eq)
  finally show ?thesis by (simp only: word_unat_eq_iff)
qed

lemma ucast_xor32: "(ucast ((x :: 64 word) XOR y) :: 32 word) = ucast x XOR ucast y"
  by (simp add: bit_eq_iff bit_simps) 

lemma ucast_char_value: "(ucast (char_value sg c) :: 32 word) = char_value32 sg c"
  by (auto simp add: char_value_def char_value32_def bit_eq_iff bit_simps) 

lemma FNVHash_loop_FNV1:
  "(ucast (FNVHash_loop sg h bytes) :: 32 word) = FNV1_from sg (ucast h) bytes"
proof (induction bytes arbitrary: h)
  case Nil
  show ?case by simp
next
  case (Cons c cs)
  have "(ucast (((h * 0x01000193) mod 0x100000000) XOR char_value sg c) :: 32 word)
        = (ucast h * 0x01000193) XOR char_value32 sg c"
    by (simp only: ucast_xor32 ucast_mod32 ucast_mult32 ucast_char_value) simp
  then show ?case using Cons.IH by simp
qed

lemma FNVHash_FNV1: "FNVHash sg bytes = FNV1 sg bytes"
  by (simp add: FNVHash_def FNV1_def FNVHash_loop_FNV1)

text \<open>
  C8, as the claim states it, fails: the hash of the code is not FNV-1a. With four
  partitions and the one-byte key \<open>a\<close> the code answers partition 2, and FNV-1a of the
  key modulo 4 is 0.
\<close>

theorem partition_of_key_not_FNV1a:
  "partition_of_key (\<lambda>k. Inl OutOfRange) True
     \<lparr>num_partitions = 4, num_replicas = 2, hash_partitioning = Some 8\<rparr> [0x61] = Inr 2
   \<and> FNV1a (take (min (length [0x61 :: 8 word]) 8) [0x61]) mod 4 = 0"
  by (simp add: partition_of_key_def FNVHash_def FNV1a_def char_value_def)

text \<open>
  C8, amended. In hash-partitioning mode, with a number of partitions that is not zero,
  the partition of a key is \<open>FNV1 (key[0:min(len, N)]) mod num_partitions\<close>, where \<open>FNV1\<close> is
  the 32-bit FNV-1 hash with offset basis \<open>0x811c9dc5\<close> and prime \<open>0x01000193\<close>: each round
  multiplies by the prime modulo \<open>2 ^ 32\<close> first and xors the byte in afterwards.
\<close>

theorem partition_of_key_FNV1:
  assumes "hash_partitioning cfg = Some n" and "num_partitions cfg \<noteq> 0"
  shows "partition_of_key stoll char_signed cfg key
           = Inr (FNV1 char_signed (take (min (length key) (unat n)) key) mod num_partitions cfg)"
proof -
  have "(if unat n \<ge> length key then key else take (unat n) key)
          = take (min (length key) (unat n)) key"
    by simp
  then show ?thesis
    using assms by (simp add: partition_of_key_def FNVHash_FNV1 del: take_all_iff)
qed

theorem partition_of_key_FNV1_witness:
  "hash_partitioning \<lparr>num_partitions = 4, num_replicas = 2, hash_partitioning = Some 8\<rparr> = Some 8
   \<and> num_partitions \<lparr>num_partitions = 4, num_replicas = 2, hash_partitioning = Some 8\<rparr> \<noteq> 0
   \<and> partition_of_key (\<lambda>k. Inl OutOfRange) True
        \<lparr>num_partitions = 4, num_replicas = 2, hash_partitioning = Some 8\<rparr>
        [0x75, 0x73, 0x65, 0x72, 0x2d, 0x30, 0x30, 0x30, 0x31] = Inr 3"
  using partition_of_key_FNV1[of "\<lparr>num_partitions = 4, num_replicas = 2, hash_partitioning = Some 8\<rparr>"
      8 "\<lambda>k. Inl OutOfRange" True "[0x75, 0x73, 0x65, 0x72, 0x2d, 0x30, 0x30, 0x30, 0x31]"]
  by (simp add: FNV1_def char_value32_def)

section \<open>Properties of the lock manager\<close>

lemma occ_rest_upd: "occ_rest (tbl(u := x)) u t = occ_rest tbl u t"
  unfolding occ_rest_def by (rule sum.cong) (auto simp: entry_def)

lemma occurrences_split:
  assumes "finite (dom tbl)"
  shows "occurrences tbl t
           = (case tbl u of None \<Rightarrow> 0 | Some i \<Rightarrow> int (count_list (waited_by i) t)) + occ_rest tbl u t"
proof (cases "tbl u")
  case None
  then have "dom tbl - {u} = dom tbl" by auto
  then show ?thesis using None by (simp add: occurrences_def occ_rest_def)
next
  case (Some i)
  then have "u \<in> dom tbl" by auto
  from sum.remove[OF assms this, of "\<lambda>v. int (count_list (waited_by (entry tbl v)) t)"]
  show ?thesis using Some by (simp add: occurrences_def occ_rest_def entry_def)
qed

lemma occurrences_upd:
  assumes "finite (dom tbl)"
  shows "occurrences (tbl(u \<mapsto> i)) t
           = occurrences tbl t
             - (case tbl u of None \<Rightarrow> 0 | Some j \<Rightarrow> int (count_list (waited_by j) t))
             + int (count_list (waited_by i) t)"
proof -
  have "finite (dom (tbl(u \<mapsto> i)))" using assms by simp
  from occurrences_split[OF this, of t u] occurrences_split[OF assms, of t u]
  show ?thesis by (simp add: occ_rest_upd)
qed

lemma occurrences_erase:
  assumes "finite (dom tbl)"
  shows "occurrences (tbl(u := None)) t
           = occurrences tbl t
             - (case tbl u of None \<Rightarrow> 0 | Some j \<Rightarrow> int (count_list (waited_by j) t))"
proof -
  have "finite (dom (tbl(u := None)))" using assms by simp
  from occurrences_split[OF this, of t u] occurrences_split[OF assms, of t u]
  show ?thesis by (simp add: occ_rest_upd)
qed

lemma balanced_try_emplace: "balanced tbl \<Longrightarrow> balanced (try_emplace t tbl)"
  by (auto simp: balanced_def try_emplace_def occurrences_upd nwf_def new_TxnInfo_def split: option.splits)

lemma balanced_upd_unarrived:
  assumes "balanced tbl" "tbl t = Some i"
  shows "balanced (tbl(t \<mapsto> i\<lparr>unarrived_lock_requests := n\<rparr>))"
  using assms by (auto simp: balanced_def occurrences_upd nwf_def)

lemma try_emplace_Some: "\<exists>i. try_emplace t tbl t = Some i"
  by (simp add: try_emplace_def split: option.splits)

lemma entry_Some: "tbl t = Some i \<Longrightarrow> entry tbl t = i"
  by (simp add: entry_def)

lemma balanced_Accept:
  assumes "balanced (txn_info lm)" "AcceptTransaction h lm = Inr (r, lm1)"
  shows "balanced (txn_info lm1)"
proof -
  obtain i where i: "try_emplace (txn_id h) (txn_info lm) (txn_id h) = Some i"
    using try_emplace_Some by blast
  have b: "balanced (try_emplace (txn_id h) (txn_info lm))"
    using assms(1) by (rule balanced_try_emplace)
  have e: "entry (try_emplace (txn_id h) (txn_info lm)) (txn_id h) = i"
    using i by (rule entry_Some)
  show ?thesis
    using assms(2) balanced_upd_unarrived[OF b i] 
    by (auto simp: AcceptTransaction_def Let_def e split: if_splits)
qed

lemma balanced_add_waits:
  assumes "balanced tbl" "tbl t \<noteq> None"
  shows "balanced (add_waits t bs tbl)"
  using assms
proof (induction bs arbitrary: tbl)
  case Nil
  then show ?case by simp
next
  case (Cons b bs)
  show ?case
  proof (cases "b = t \<or> tbl b = None")
    case True
    then show ?thesis using Cons by (auto split: option.splits)
  next
    case False
    then obtain bi where bi: "tbl b = Some bi" and bt: "b \<noteq> t" by auto
    obtain ti where ti: "tbl t = Some ti" using Cons.prems by auto
    let ?tbl1 = "tbl(t \<mapsto> ti\<lparr>num_waiting_for := num_waiting_for ti + 1\<rparr>)"
    let ?tbl2 = "?tbl1(b \<mapsto> bi\<lparr>waited_by := waited_by bi @ [t]\<rparr>)"
    have fin: "finite (dom tbl)" using Cons.prems by (simp add: balanced_def)
    have "balanced ?tbl2"
      unfolding balanced_def
    proof (intro conjI allI impI)
      show "finite (dom ?tbl2)" using fin by simp
    next
      fix x assume x: "x \<noteq> kSentinelTxnId"
      have o: "occurrences tbl x = nwf tbl x" using Cons.prems x by (simp add: balanced_def)
      have "occurrences ?tbl2 x = occurrences tbl x + (if x = t then 1 else 0)"
        using fin bi ti bt by (simp add: occurrences_upd)
      also have "\<dots> = nwf ?tbl2 x" using o bi ti bt by (auto simp: nwf_def)
      finally show "occurrences ?tbl2 x = nwf ?tbl2 x" .
    qed
    moreover have "?tbl2 t \<noteq> None" by simp
    ultimately have "balanced (add_waits t bs ?tbl2)" by (rule Cons.IH)
    then show ?thesis using bi ti bt by (simp add: entry_def Let_def)
  qed
qed

lemma balanced_Acquire:
  assumes "balanced (txn_info lm)" "AcquireLocks h lm = Inr (r, lm1)"
  shows "balanced (txn_info lm1)"
proof -
  obtain i where i: "try_emplace (txn_id h) (txn_info lm) (txn_id h) = Some i"
    using try_emplace_Some by blast
  have b: "balanced (try_emplace (txn_id h) (txn_info lm))"
    using assms(1) by (rule balanced_try_emplace)
  have "balanced (add_waits (txn_id h) bs 
     ((try_emplace (txn_id h) (txn_info lm))(txn_id h \<mapsto> i\<lparr>unarrived_lock_requests := n\<rparr>)))" for bs n
    by (rule balanced_add_waits[OF balanced_upd_unarrived[OF b i]]) simp
  moreover have e: "entry (try_emplace (txn_id h) (txn_info lm)) (txn_id h) = i"
    using i by (rule entry_Some)
  ultimately show ?thesis
    using assms(2)
    by (auto simp: AcquireLocks_def Let_def e split: if_splits sum.splits)
qed


lemma occ_rest_nonneg: "0 \<le> occ_rest tbl u t"
  by (simp add: occ_rest_def sum_nonneg)

lemma count_le_occurrences:
  assumes "finite (dom tbl)" "tbl u = Some i"
  shows "int (count_list (waited_by i) t) \<le> occurrences tbl t"
  using occurrences_split[OF assms(1), of t u] occ_rest_nonneg[of tbl u t] assms(2) by simp

lemma occurrences_cong:
  assumes "dom tbl' = dom tbl" "\<And>u. waited_by (entry tbl' u) = waited_by (entry tbl u)"
  shows "occurrences tbl' t = occurrences tbl t"
  using assms by (simp add: occurrences_def)

lemma release_waiters_effect:
  assumes "release_waiters ws tbl res = (res', tbl')"
  shows "dom tbl' = dom tbl
       \<and> (\<forall>u. waited_by (entry tbl' u) = waited_by (entry tbl u))
       \<and> (\<forall>x. x \<noteq> kSentinelTxnId \<longrightarrow>
            nwf tbl' x = nwf tbl x - (if x \<in> dom tbl then int (count_list ws x) else 0))"
  using assms
proof (induction ws arbitrary: tbl res)
  case Nil
  then show ?case by simp
next
  case (Cons w ws)
  show ?case
  proof (cases "w = kSentinelTxnId \<or> tbl w = None")
    case True
    then have "release_waiters ws tbl res = (res', tbl')" using Cons.prems by (auto split: option.splits)
    from Cons.IH[OF this] True show ?thesis by (auto simp: domIff)
  next
    case False
    then obtain wi where wi: "tbl w = Some wi" and ws: "w \<noteq> kSentinelTxnId" by auto
    define tbl1 where "tbl1 = tbl(w \<mapsto> wi\<lparr>num_waiting_for := num_waiting_for wi - 1\<rparr>)"
    obtain res1 where "release_waiters ws tbl1 res1 = (res', tbl')"
      using Cons.prems wi ws by (auto simp: Let_def tbl1_def split: if_splits)
    note ih = Cons.IH[OF this]
    have d: "dom tbl1 = dom tbl" using wi by (auto simp: tbl1_def)
    have wb: "waited_by (entry tbl1 u) = waited_by (entry tbl u)" for u
      using wi by (simp add: entry_def tbl1_def)
    have n: "nwf tbl1 x = nwf tbl x - (if x = w then 1 else 0)" for x
      using wi by (simp add: nwf_def tbl1_def)
    have "dom tbl' = dom tbl" using ih d by simp
    moreover have "\<forall>u. waited_by (entry tbl' u) = waited_by (entry tbl u)"
      using ih wb by simp
    moreover have "\<forall>x. x \<noteq> kSentinelTxnId \<longrightarrow>
            nwf tbl' x = nwf tbl x - (if x \<in> dom tbl then int (count_list (w # ws) x) else 0)"
    proof (intro allI impI)
      fix x assume x: "x \<noteq> kSentinelTxnId"
      have "nwf tbl' x = nwf tbl1 x - (if x \<in> dom tbl1 then int (count_list ws x) else 0)"
        using ih x by blast
      also have "\<dots> = nwf tbl x - (if x = w then 1 else 0) - (if x \<in> dom tbl then int (count_list ws x) else 0)"
        by (simp only: n d)
      also have "\<dots> = nwf tbl x - (if x \<in> dom tbl then int (count_list (w # ws) x) else 0)"
        using wi by (auto simp: domIff)
      finally show "nwf tbl' x = nwf tbl x - (if x \<in> dom tbl then int (count_list (w # ws) x) else 0)" .
    qed
    ultimately show ?thesis by blast
  qed
qed

lemma balanced_Release:
  assumes bal: "balanced (txn_info lm)" and rel: "ReleaseLocks h lm = Inr (r, lm1)"
  shows "balanced (txn_info lm1)"
proof (cases "txn_info lm (txn_id h)")
  case None
  then show ?thesis using assms by (simp add: ReleaseLocks_def)
next
  case (Some info)
  let ?t = "txn_id h" and ?tbl = "txn_info lm"
  have rdy: "is_ready info" using rel Some by (auto simp: ReleaseLocks_def split: if_splits)
  obtain res tbl' where rw: "release_waiters (waited_by info) ?tbl [] = (res, tbl')"
    by (cases "release_waiters (waited_by info) ?tbl []")
  have lm1: "txn_info lm1 = tbl'(?t := None)"
    using rel Some rdy rw by (auto simp: ReleaseLocks_def)
  note eff = release_waiters_effect[OF rw]
  have fin: "finite (dom ?tbl)" using bal by (simp add: balanced_def)
  have fin': "finite (dom tbl')" using eff fin by simp
  obtain info' where info': "tbl' ?t = Some info'" and wb': "waited_by info' = waited_by info"
  proof -
    have "?t \<in> dom tbl'" using eff Some by auto
    then obtain i where i: "tbl' ?t = Some i" by auto
    moreover have "waited_by (entry tbl' ?t) = waited_by (entry ?tbl ?t)" using eff by blast
    ultimately show ?thesis using that Some by (simp add: entry_def)
  qed
  have occ': "occurrences tbl' x = occurrences ?tbl x" for x
    by (rule occurrences_cong) (use eff in auto)
  show ?thesis
    unfolding balanced_def lm1
  proof (intro conjI allI impI)
    show "finite (dom (tbl'(?t := None)))" using fin' by simp
  next
    fix x assume x: "x \<noteq> kSentinelTxnId"
    let ?c = "int (count_list (waited_by info) x)"
    have o: "occurrences ?tbl x = nwf ?tbl x" using bal x by (simp add: balanced_def)
    have le: "?c \<le> occurrences ?tbl x" using count_le_occurrences[OF fin Some] .
    have "occurrences (tbl'(?t := None)) x = occurrences ?tbl x - ?c"
      using occurrences_erase[OF fin', of ?t x] info' wb' occ' by simp
    moreover have "nwf (tbl'(?t := None)) x = nwf ?tbl x - ?c"
    proof (cases "x = ?t")
      case True
      have "nwf ?tbl x = 0" using True Some rdy by (simp add: nwf_def is_ready_def)
      with o le have "?c = 0" by simp
      with True \<open>nwf ?tbl x = 0\<close> show ?thesis by (simp add: nwf_def)
    next
      case False
      have "nwf tbl' x = nwf ?tbl x - (if x \<in> dom ?tbl then ?c else 0)"
        using eff x by blast
      moreover have "?c = 0" if "x \<notin> dom ?tbl"
      proof -
        have "nwf ?tbl x = 0" using that by (simp add: nwf_def domIff)
        with o le show ?thesis by simp
      qed
      ultimately show ?thesis using False by (auto simp: nwf_def)
    qed
    ultimately show "occurrences (tbl'(?t := None)) x = nwf (tbl'(?t := None)) x" using o by simp
  qed
qed

lemma balanced_step:
  assumes "balanced (txn_info lm)" "lm_step c lm = Inr lm1"
  shows "balanced (txn_info lm1)"
  using assms
  by (cases c) (auto split: sum.splits dest: balanced_Accept balanced_Acquire balanced_Release)

lemma balanced_run:
  assumes "balanced (txn_info lm)" "lm_run cs lm = Inr lm1"
  shows "balanced (txn_info lm1)"
  using assms
proof (induction cs arbitrary: lm)
  case Nil
  then show ?case by simp
next
  case (Cons c cs)
  then show ?case by (auto split: sum.splits dest: balanced_step)
qed

lemma balanced_new: "balanced (txn_info new_DDRLockManager)"
  by (simp add: balanced_def new_DDRLockManager_def occurrences_def nwf_def)


lemmas lm_eval =
  holder_def new_DDRLockManager_def AcceptTransaction_def AcquireLocks_def ReleaseLocks_def
  locks_to_request_def try_emplace_def entry_def new_TxnInfo_def MakeKeyReplica_def
  empty_tail_def AcquireWriteLock_def AcquireReadLock_def is_ready_def is_complete_def
  kSentinelTxnId_def

text \<open>
  C4. In every state that the lock manager reaches from its initial state by calls of
  \<open>AcceptTransaction\<close>, \<open>AcquireLocks\<close> and \<open>ReleaseLocks\<close>, the counter \<open>num_waiting_for\<close> of
  every transaction in the table (other than the sentinel id, which is no transaction)
  is the number of occurrences of the transaction in the waited-by lists of the
  transactions in the table. A blocker counted twice is a transaction that occurs twice
  in the blocker's list, as in the witness: 100 holds the keys \<open>a\<close> and \<open>b\<close>, and the two
  pieces of 200 each find 100.
\<close>

theorem wait_for_graph_balance:
  assumes "lm_run cs new_DDRLockManager = Inr lm"
    and "txn_info lm t = Some info" and "t \<noteq> kSentinelTxnId"
  shows "num_waiting_for info = occurrences (txn_info lm) t"
  using balanced_run[OF balanced_new assms(1)] assms(2,3) by (simp add: balanced_def nwf_def)

theorem wait_for_graph_balance_witness:
  "(case lm_run [Accept (holder 100 [([0x61], WRITE), ([0x62], WRITE)]),
                 Acquire (holder 100 [([0x61], WRITE), ([0x62], WRITE)]),
                 Accept (holder 200 [([0x61], WRITE)]), Acquire (holder 200 [([0x61], WRITE)]),
                 Accept (holder 200 [([0x62], READ)]), Acquire (holder 200 [([0x62], READ)])]
          new_DDRLockManager of
      Inl e \<Rightarrow> False
    | Inr lm \<Rightarrow>
        txn_info lm 100 = Some \<lparr>info_id = 100, unarrived_lock_requests = 0,
                                 num_waiting_for = 0, waited_by = [200, 200]\<rparr>
      \<and> txn_info lm 200 = Some \<lparr>info_id = 200, unarrived_lock_requests = 0,
                                 num_waiting_for = 2, waited_by = []\<rparr>
      \<and> occurrences (txn_info lm) 200 = 2)"
proof -
  let ?cs = "[Accept (holder 100 [([0x61], WRITE), ([0x62], WRITE)]),
                 Acquire (holder 100 [([0x61], WRITE), ([0x62], WRITE)]),
                 Accept (holder 200 [([0x61], WRITE)]), Acquire (holder 200 [([0x61], WRITE)]),
                 Accept (holder 200 [([0x62], READ)]), Acquire (holder 200 [([0x62], READ)])]"
  have "\<exists>lm. lm_run ?cs new_DDRLockManager = Inr lm
      \<and> txn_info lm 100 = Some \<lparr>info_id = 100, unarrived_lock_requests = 0,
                                 num_waiting_for = 0, waited_by = [200, 200]\<rparr>
      \<and> txn_info lm 200 = Some \<lparr>info_id = 200, unarrived_lock_requests = 0,
                                 num_waiting_for = 2, waited_by = []\<rparr>"
    by (simp add: lm_eval)
  then obtain lm where r: "lm_run ?cs new_DDRLockManager = Inr lm"
    and a: "txn_info lm 100 = Some \<lparr>info_id = 100, unarrived_lock_requests = 0,
                                 num_waiting_for = 0, waited_by = [200, 200]\<rparr>"
    and b: "txn_info lm 200 = Some \<lparr>info_id = 200, unarrived_lock_requests = 0,
                                 num_waiting_for = 2, waited_by = []\<rparr>"
    by blast
  have "(200 :: TxnId) \<noteq> kSentinelTxnId" by (simp add: kSentinelTxnId_def)
  from wait_for_graph_balance[OF r b this] show ?thesis using r a b by simp
qed

text \<open>
  C10. \<open>ReleaseLocks\<close> for a transaction that is not in the table returns the empty list and
  leaves the lock manager (the table of transactions and the lock table) as it was, with
  no fatal error. The fatal error for releasing an unready transaction is raised
  exactly for the transactions that are in the table and not ready.
\<close>

theorem ReleaseLocks_unknown_txn:
  "(txn_info lm (txn_id h) = None \<longrightarrow> ReleaseLocks h lm = Inr ([], lm))
 \<and> (txn_info lm (txn_id h) = Some info \<longrightarrow>
      (ReleaseLocks h lm = Inl (Fatal ''Releasing unready txn is forbidden'') \<longleftrightarrow> \<not> is_ready info)
    \<and> (\<forall>e. ReleaseLocks h lm = Inl e \<longrightarrow> \<not> is_ready info))"
  by (auto simp add: ReleaseLocks_def split_beta)

theorem ReleaseLocks_unknown_txn_witness:
  "ReleaseLocks (holder 7 [([0x61], WRITE)])
     \<lparr>lock_table = [([0x61], 0) \<mapsto> \<lparr>write_lock_requester = Some 7, read_lock_requesters = []\<rparr>],
      txn_info = [8 \<mapsto> \<lparr>info_id = 8, unarrived_lock_requests = 0, num_waiting_for = 1,
                          waited_by = []\<rparr>],
      ready_txns = []\<rparr>
   = Inr ([], \<lparr>lock_table = [([0x61], 0) \<mapsto> \<lparr>write_lock_requester = Some 7, read_lock_requesters = []\<rparr>],
      txn_info = [8 \<mapsto> \<lparr>info_id = 8, unarrived_lock_requests = 0, num_waiting_for = 1,
                          waited_by = []\<rparr>],
      ready_txns = []\<rparr>)
 \<and> ReleaseLocks (holder 8 [([0x61], WRITE)])
     \<lparr>lock_table = [([0x61], 0) \<mapsto> \<lparr>write_lock_requester = Some 7, read_lock_requesters = []\<rparr>],
      txn_info = [8 \<mapsto> \<lparr>info_id = 8, unarrived_lock_requests = 0, num_waiting_for = 1,
                          waited_by = []\<rparr>],
      ready_txns = []\<rparr>
   = Inl (Fatal ''Releasing unready txn is forbidden'')"
  using ReleaseLocks_unknown_txn[of
      "\<lparr>lock_table = [([0x61], 0) \<mapsto> \<lparr>write_lock_requester = Some 7, read_lock_requesters = []\<rparr>],
      txn_info = [8 \<mapsto> \<lparr>info_id = 8, unarrived_lock_requests = 0, num_waiting_for = 1,
                          waited_by = []\<rparr>],
      ready_txns = []\<rparr>" "holder 7 [([0x61], WRITE)]"]
    ReleaseLocks_unknown_txn[of
      "\<lparr>lock_table = [([0x61], 0) \<mapsto> \<lparr>write_lock_requester = Some 7, read_lock_requesters = []\<rparr>],
      txn_info = [8 \<mapsto> \<lparr>info_id = 8, unarrived_lock_requests = 0, num_waiting_for = 1,
                          waited_by = []\<rparr>],
      ready_txns = []\<rparr>" "holder 8 [([0x61], WRITE)]"
      "\<lparr>info_id = 8, unarrived_lock_requests = 0, num_waiting_for = 1, waited_by = []\<rparr>"]
  by (simp add: holder_def is_ready_def is_complete_def)

section \<open>Properties of the deadlock resolver\<close>

lemma effect_cong:
  assumes "\<And>x info. tbl x = Some info \<Longrightarrow> f x (waited_by info) = f' x (waited_by info) \<and> d x = d' x"
  shows "effect f d tbl = effect f' d' tbl"
  by (rule ext) (auto simp: effect_def map_option_case assms split: option.splits)

lemma effect_effect:
  "effect f2 d2 (effect f1 d1 tbl) = effect (\<lambda>x l. f2 x (f1 x l)) (\<lambda>x. d1 x + d2 x) tbl"
  by (rule ext) (auto simp: effect_def map_option_case split: option.splits)

lemma effect_None [simp]: "effect f d tbl x = None \<longleftrightarrow> tbl x = None"
  by (simp add: effect_def)

lemma nth_of_drop: "drop a l = w # ws \<Longrightarrow> l ! a = w \<and> a < length l \<and> drop (Suc a) l = ws"
  by (metis Cons_nth_drop_Suc drop_eq_Nil2 list.inject list.simps(3) not_less)

lemma slot_step:
  assumes t: "tbl t = Some txn" and w: "tbl w = Some wi" 
  shows "(let tbl1 = tbl(t \<mapsto> txn\<lparr>waited_by := (waited_by txn)[j := kSentinelTxnId]\<rparr>);
              waiting_txn = entry tbl1 w
          in tbl1(w \<mapsto> waiting_txn\<lparr>num_waiting_for := num_waiting_for waiting_txn - 1\<rparr>))
         = effect (\<lambda>x l. if x = t then l[j := kSentinelTxnId] else l) (\<lambda>x. if x = w then - 1 else 0) tbl"
  using assms by (auto simp: effect_def entry_def Let_def fun_eq_iff map_option_case split: option.splits)

lemma slot_step_new:
  assumes t: "tbl t = Some txn" and w: "tbl w = Some wi" and n: "tbl nx = Some ni"
  shows "(let tbl1 = tbl(t \<mapsto> txn\<lparr>waited_by := (waited_by txn)[j := nx]\<rparr>);
              nxt = entry tbl1 nx;
              tbl2 = tbl1(nx \<mapsto> nxt\<lparr>num_waiting_for := num_waiting_for nxt + 1\<rparr>);
              waiting_txn = entry tbl2 w
          in tbl2(w \<mapsto> waiting_txn\<lparr>num_waiting_for := num_waiting_for waiting_txn - 1\<rparr>))
         = effect (\<lambda>x l. if x = t then l[j := nx] else l)
                  (\<lambda>x. (if x = nx then 1 else 0) + (if x = w then - 1 else 0)) tbl"
  using assms by (auto simp: effect_def entry_def Let_def fun_eq_iff map_option_case split: option.splits)

lemma effect_id:
  assumes "\<And>x info. tbl x = Some info \<Longrightarrow> f x (waited_by info) = waited_by info \<and> d x = 0"
  shows "effect f d tbl = tbl"
  by (rule ext) (auto simp: effect_def map_option_case assms split: option.splits)

lemma rewrite_slots_Cons:
  assumes "tbl (s ! i) = Some txn" "waited_by txn ! j = w"
  shows "rewrite_slots s i (j # js) added tbl =
     (if w \<in> set s then
        (case tbl w of
           None \<Rightarrow> Inl (CheckFailed ''waiting_txn != txn_info_.end()'')
         | Some wi \<Rightarrow>
             if \<not> added then
               (case tbl (s ! (i + 1)) of
                  None \<Rightarrow> Inl UndefinedBehaviour
                | Some nxt \<Rightarrow>
                    rewrite_slots s i js True
                      (effect (\<lambda>x l. if x = s ! i then l[j := s ! (i + 1)] else l)
                         (\<lambda>x. (if x = s ! (i + 1) then 1 else 0) + (if x = w then - 1 else 0)) tbl))
             else rewrite_slots s i js True
                    (effect (\<lambda>x l. if x = s ! i then l[j := kSentinelTxnId] else l)
                       (\<lambda>x. if x = w then - 1 else 0) tbl))
      else rewrite_slots s i js added tbl)"
proof (cases "w \<in> set s")
  case False
  then show ?thesis using assms by (simp add: entry_def)
next
  case mem: True
  show ?thesis
  proof (cases "tbl w")
    case None
    then show ?thesis using assms mem by (simp add: entry_def)
  next
    case (Some wi)
    show ?thesis
    proof (cases added)
      case True
      from slot_step[of tbl "s ! i" txn w wi j, OF assms(1) Some]
      show ?thesis using assms mem Some True by (simp add: entry_def Let_def)
    next
      case False
      show ?thesis
      proof (cases "tbl (s ! (i + 1))")
        case None
        then have "s ! (i + 1) \<noteq> s ! i" using assms(1) by auto
        then show ?thesis using assms mem Some False None by (simp add: entry_def Let_def)
      next
        case (Some ni)
        from slot_step_new[of tbl "s ! i" txn w wi "s ! (i + 1)" ni j, OF assms(1) \<open>tbl w = Some wi\<close> Some]
        show ?thesis using assms mem \<open>tbl w = Some wi\<close> False Some
          by (auto simp add: entry_def Let_def)
      qed
    qed
  qed
qed

lemma rewrite_slots_effect:
  assumes "tbl (s ! i) = Some txn" and "drop a (waited_by txn) = ws"
    and "\<forall>w \<in> set ws. w \<in> set s \<longrightarrow> tbl w \<noteq> None"
    and "added \<or> tbl (s ! (i + 1)) \<noteq> None"
  shows "rewrite_slots s i [a..<a + length ws] added tbl
       = Inr (added \<or> (\<exists>w \<in> set ws. w \<in> set s),
              effect (\<lambda>x l. if x = s ! i
                              then take a l @ rewrite_list s (s ! (i + 1)) added (drop a l) else l)
                     (\<lambda>x. (if \<not> added \<and> (\<exists>w \<in> set ws. w \<in> set s) \<and> x = s ! (i + 1) then 1 else 0)
                           - member_count s ws x) tbl)"
  using assms
proof (induction ws arbitrary: a added tbl txn)
  case Nil
  have "effect (\<lambda>x l. if x = s ! i
                              then take a l @ rewrite_list s (s ! (i + 1)) added (drop a l) else l)
                     (\<lambda>x. (if \<not> added \<and> (\<exists>w \<in> set []. w \<in> set s) \<and> x = s ! (i + 1) then 1 else 0)
                           - member_count s [] x) tbl = tbl"
    by (rule effect_id) (use Nil in \<open>auto simp: member_count_def\<close>)
  then show ?case by simp
next
  case (Cons w ws)
  let ?l = "waited_by txn" and ?nx = "s ! (i + 1)" and ?t = "s ! i"
  let ?js = "[Suc a..<Suc a + length ws]"
  let ?F = "\<lambda>ad b x l. if x = ?t then take b l @ rewrite_list s ?nx ad (drop b l) else l"
  let ?D = "\<lambda>ad ws x. (if \<not> ad \<and> (\<exists>w \<in> set ws. w \<in> set s) \<and> x = ?nx then 1 else 0)
                           - member_count s ws x"
  from nth_of_drop[OF Cons.prems(2)]
  have wa: "?l ! a = w" and al: "a < length ?l" and dr: "drop (Suc a) ?l = ws" by auto
  have upt: "[a..<a + length (w # ws)] = a # ?js"
    by (simp add: upt_conv_Cons del: upt_Suc)
  have tk: "take (Suc a) ?l = take a ?l @ [w]"
    using wa al by (simp add: take_Suc_conv_app_nth)
  note unf = rewrite_slots_Cons[of tbl s i txn a w ?js added, OF Cons.prems(1) wa]
  show ?case
  proof (cases "w \<in> set s")
    case False
    have A: "rewrite_slots s i (a # ?js) added tbl = rewrite_slots s i ?js added tbl"
      unfolding unf using False by (simp only: if_False)
    have B: "rewrite_slots s i ?js added tbl
       = Inr (added \<or> (\<exists>w \<in> set ws. w \<in> set s), effect (?F added (Suc a)) (?D added ws) tbl)"
      by (rule Cons.IH[where tbl = tbl and txn = txn and a = "Suc a" and added = added, OF Cons.prems(1) dr])
         (use Cons.prems in auto)
    have C: "effect (?F added (Suc a)) (?D added ws) tbl = effect (?F added a) (?D added (w # ws)) tbl"
      by (rule effect_cong) (use False Cons.prems(1,2) dr tk in \<open>auto simp: member_count_def\<close>)
    have D: "(added \<or> (\<exists>w \<in> set ws. w \<in> set s)) = (added \<or> (\<exists>w' \<in> set (w # ws). w' \<in> set s))"
      using False by simp
    show ?thesis by (simp only: upt A B C D)
  next
    case True
    then obtain wi where wi: "tbl w = Some wi" using Cons.prems(3) by auto
    show ?thesis
    proof (cases added)
      case ad: True
      define tbl3 where "tbl3 = effect (\<lambda>x l. if x = ?t then l[a := kSentinelTxnId] else l)
                                  (\<lambda>x. if x = w then - 1 else 0) tbl"
      have A: "rewrite_slots s i (a # ?js) added tbl = rewrite_slots s i ?js True tbl3"
        unfolding unf tbl3_def using True wi ad by (simp only: if_True option.case not_True_eq_False if_False)
      obtain txn3 where t3: "tbl3 ?t = Some txn3" and l3: "waited_by txn3 = ?l[a := kSentinelTxnId]"
        using Cons.prems(1) by (auto simp: tbl3_def effect_def)
      have d3: "drop (Suc a) (waited_by txn3) = ws" using l3 dr by simp
      have B: "rewrite_slots s i ?js True tbl3
         = Inr (True \<or> (\<exists>w \<in> set ws. w \<in> set s), effect (?F True (Suc a)) (?D True ws) tbl3)"
        by (rule Cons.IH[where tbl = tbl3 and txn = txn3 and a = "Suc a" and added = True, OF t3 d3])
           (use Cons.prems in \<open>auto simp: tbl3_def\<close>)
      have C: "effect (?F True (Suc a)) (?D True ws) tbl3 = effect (?F added a) (?D added (w # ws)) tbl"
        unfolding tbl3_def effect_effect
        by (rule effect_cong)
           (use ad True Cons.prems(1,2) dr al in \<open>auto simp: member_count_def take_Suc_conv_app_nth\<close>)
      have D: "(True \<or> (\<exists>w \<in> set ws. w \<in> set s)) = (added \<or> (\<exists>w' \<in> set (w # ws). w' \<in> set s))"
        using ad by simp
      show ?thesis by (simp only: upt A B C D)
    next
      case ad: False
      then obtain ni where ni: "tbl ?nx = Some ni" using Cons.prems(4) by auto
      define tbl3 where "tbl3 = effect (\<lambda>x l. if x = ?t then l[a := ?nx] else l)
                  (\<lambda>x. (if x = ?nx then 1 else 0) + (if x = w then - 1 else 0)) tbl"
      have A: "rewrite_slots s i (a # ?js) added tbl = rewrite_slots s i ?js True tbl3"
        unfolding unf tbl3_def using True wi ad ni by (simp only: if_True option.case not_False_eq_True)
      obtain txn3 where t3: "tbl3 ?t = Some txn3" and l3: "waited_by txn3 = ?l[a := ?nx]"
        using Cons.prems(1) by (auto simp: tbl3_def effect_def)
      have d3: "drop (Suc a) (waited_by txn3) = ws" using l3 dr by simp
      have B: "rewrite_slots s i ?js True tbl3
         = Inr (True \<or> (\<exists>w \<in> set ws. w \<in> set s), effect (?F True (Suc a)) (?D True ws) tbl3)"
        by (rule Cons.IH[where tbl = tbl3 and txn = txn3 and a = "Suc a" and added = True, OF t3 d3])
           (use Cons.prems in \<open>auto simp: tbl3_def\<close>)
      have C: "effect (?F True (Suc a)) (?D True ws) tbl3 = effect (?F added a) (?D added (w # ws)) tbl"
        unfolding tbl3_def effect_effect
        by (rule effect_cong)
           (use ad True Cons.prems(1,2) dr al in \<open>auto simp: member_count_def take_Suc_conv_app_nth\<close>)
      have D: "(True \<or> (\<exists>w \<in> set ws. w \<in> set s)) = (added \<or> (\<exists>w' \<in> set (w # ws). w' \<in> set s))"
        using True by simp
      show ?thesis by (simp only: upt A B C D)
    qed
  qed
qed

lemma resolvableD:
  assumes "resolvable s is tbl"
  shows "distinct s" "distinct is" "\<And>t. t \<in> set s \<Longrightarrow> tbl t \<noteq> None"
    "\<And>i. i \<in> set is \<Longrightarrow> member_ok s tbl i"
  using assms by (simp_all add: resolvable_def)

lemma member_okD:
  assumes "member_ok s tbl i"
  obtains info where "i < length s" "tbl (s ! i) = Some info" "is_complete info"
    "\<exists>w \<in> set (waited_by info). w \<in> set s"
  using assms unfolding member_ok_def by blast

lemma resolve_member_effect:
  assumes "resolvable s (i # is) tbl"
  shows "resolve_member s i tbl = Inr (effect (member_F s i) (member_D s tbl i) tbl)"
proof -
  have ok: "member_ok s tbl i" using resolvableD(4)[OF assms] by simp
  from member_okD[OF ok] obtain txn where i: "i < length s" and t: "tbl (s ! i) = Some txn"
    and c: "is_complete txn" and m: "\<exists>w \<in> set (waited_by txn). w \<in> set s"
    by blast
  have pres: "\<forall>w \<in> set (waited_by txn). w \<in> set s \<longrightarrow> tbl w \<noteq> None"
    using resolvableD(3)[OF assms] by blast
  have nx: "i = length s - 1 \<or> tbl (s ! (i + 1)) \<noteq> None"
  proof (cases "i = length s - 1")
    case False
    then have "i + 1 < length s" using i by simp
    then have "s ! (i + 1) \<in> set s" by simp
    then show ?thesis using resolvableD(3)[OF assms] by blast
  qed simp
  have "rewrite_slots s i [0..<0 + length (waited_by txn)] (i = length s - 1) tbl
      = Inr (i = length s - 1 \<or> (\<exists>w \<in> set (waited_by txn). w \<in> set s),
              effect (\<lambda>x l. if x = s ! i
                              then take 0 l @ rewrite_list s (s ! (i + 1)) (i = length s - 1) (drop 0 l) else l)
                     (\<lambda>x. (if \<not> i = length s - 1 \<and> (\<exists>w \<in> set (waited_by txn). w \<in> set s) \<and> x = s ! (i + 1) then 1 else 0)
                           - member_count s (waited_by txn) x) tbl)"
    by (rule rewrite_slots_effect[where txn = txn, OF t _ pres nx]) simp
  moreover have "effect (\<lambda>x l. if x = s ! i
                              then take 0 l @ rewrite_list s (s ! (i + 1)) (i = length s - 1) (drop 0 l) else l)
                     (\<lambda>x. (if \<not> i = length s - 1 \<and> (\<exists>w \<in> set (waited_by txn). w \<in> set s) \<and> x = s ! (i + 1) then 1 else 0)
                           - member_count s (waited_by txn) x) tbl
      = effect (member_F s i) (member_D s tbl i) tbl"
    by (rule effect_cong) (use m t in \<open>auto simp: member_F_def member_D_def entry_def\<close>)
  ultimately show ?thesis using t c m by (simp add: resolve_member_def del: rewrite_slots.simps)
qed

lemma members_D_cong:
  assumes "\<And>i. i \<in> set is \<Longrightarrow> waited_by (entry tbl' (s ! i)) = waited_by (entry tbl (s ! i))"
  shows "members_D s tbl' is x = members_D s tbl is x"
  using assms by (induction "is") (auto simp: member_D_def)

lemma entry_effect:
  "tbl x \<noteq> None \<Longrightarrow> entry (effect f d tbl) x
     = (entry tbl x)\<lparr>num_waiting_for := num_waiting_for (entry tbl x) + d x,
                       waited_by := f x (waited_by (entry tbl x))\<rparr>"
  by (auto simp: entry_def effect_def)

lemma resolvable_step:
  assumes "resolvable s (i # is) tbl"
  shows "resolvable s is (effect (member_F s i) d tbl)"
    and "\<And>j. j \<in> set is \<Longrightarrow>
           waited_by (entry (effect (member_F s i) d tbl) (s ! j)) = waited_by (entry tbl (s ! j))"
proof -
  note d = resolvableD[OF assms]
  have il: "i < length s" using d(4)[of i] by (simp add: member_ok_def)
  have neq: "s ! j \<noteq> s ! i" if "j \<in> set is" for j
  proof -
    have "j \<noteq> i" using d(2) that by auto
    moreover have "j < length s" using d(4)[of j] that by (simp add: member_ok_def)
    ultimately show ?thesis using d(1) il by (simp add: nth_eq_iff_index_eq)
  qed
  have ok: "member_ok s (effect (member_F s i) d tbl) j" if j: "j \<in> set is" for j
  proof -
    have "member_ok s tbl j" using d(4)[of j] j by simp
    from member_okD[OF this] obtain info where jl: "j < length s" and t: "tbl (s ! j) = Some info"
      and c: "is_complete info" and m: "\<exists>w \<in> set (waited_by info). w \<in> set s"
      by blast
    let ?info = "info\<lparr>num_waiting_for := num_waiting_for info + d (s ! j),
                        waited_by := member_F s i (s ! j) (waited_by info)\<rparr>"
    have "effect (member_F s i) d tbl (s ! j) = Some ?info" using t by (simp add: effect_def)
    moreover have "is_complete ?info" using c by (simp add: is_complete_def)
    moreover have "waited_by ?info = waited_by info" using neq[OF j] by (simp add: member_F_def)
    ultimately show ?thesis unfolding member_ok_def using jl m by metis
  qed
  show "resolvable s is (effect (member_F s i) d tbl)"
    unfolding resolvable_def using d(1,2,3) ok by simp
  fix j assume j: "j \<in> set is"
  have "j < length s" using d(4)[of j] j by (simp add: member_ok_def)
  then have "tbl (s ! j) \<noteq> None" using d(3)[of "s ! j"] by simp
  then show "waited_by (entry (effect (member_F s i) d tbl) (s ! j)) = waited_by (entry tbl (s ! j))"
    using neq[OF j] by (simp add: entry_effect member_F_def)
qed

lemma resolve_members_effect:
  assumes "resolvable s is tbl"
  shows "resolve_members s is tbl = Inr (effect (members_F s is) (members_D s tbl is) tbl)"
  using assms
proof (induction "is" arbitrary: tbl)
  case Nil
  have "effect (members_F s []) (members_D s tbl []) tbl = tbl"
    by (rule effect_id) simp
  then show ?case by (simp only: resolve_members.simps)
next
  case (Cons i "is")
  define tbl1 where "tbl1 = effect (member_F s i) (member_D s tbl i) tbl"
  have r1: "resolve_member s i tbl = Inr tbl1"
    unfolding tbl1_def using Cons.prems by (rule resolve_member_effect)
  have res: "resolvable s is tbl1"
    unfolding tbl1_def using Cons.prems by (rule resolvable_step)
  have e1: "resolve_members s is tbl1 = Inr (effect (members_F s is) (members_D s tbl1 is) tbl1)"
    using res by (rule Cons.IH)
  have md: "members_D s tbl1 is = members_D s tbl is"
  proof (rule ext, rule members_D_cong)
    fix j assume "j \<in> set is"
    then show "waited_by (entry tbl1 (s ! j)) = waited_by (entry tbl (s ! j))"
      unfolding tbl1_def by (rule resolvable_step(2)[OF Cons.prems])
  qed
  have e2: "effect (members_F s is) (members_D s tbl is) tbl1
      = effect (members_F s (i # is)) (members_D s tbl (i # is)) tbl"
    unfolding tbl1_def effect_effect by (rule effect_cong) simp
  have "resolve_members s (i # is) tbl = resolve_members s is tbl1"
    using r1 by simp
  then show ?case by (simp only: e1 md e2)
qed

lemma rewrite_list_length [simp]: "length (rewrite_list s nx ad ws) = length ws"
  by (induction ws arbitrary: ad) auto

lemma rewrite_list_nth:
  assumes "j < length ws"
  shows "(ws ! j \<notin> set s \<longrightarrow> rewrite_list s nx ad ws ! j = ws ! j)
       \<and> (ws ! j \<in> set s \<longrightarrow> rewrite_list s nx ad ws ! j = kSentinelTxnId
               \<or> (\<not> ad \<and> rewrite_list s nx ad ws ! j = nx))"
  using assms
proof (induction ws arbitrary: j ad)
  case Nil
  then show ?case by simp
next
  case (Cons w ws)
  show ?case
  proof (cases j)
    case 0
    then show ?thesis by simp
  next
    case (Suc j')
    then have "j' < length ws" using Cons.prems by simp
    from Cons.IH[OF this, of ad] Cons.IH[OF this, of True] Suc show ?thesis by auto
  qed
qed

lemma rewrite_list_filter:
  assumes "kSentinelTxnId \<notin> set s" "nx \<in> set s"
  shows "filter (\<lambda>w. w \<in> set s) (rewrite_list s nx ad ws)
           = (if \<not> ad \<and> (\<exists>w \<in> set ws. w \<in> set s) then [nx] else [])"
  using assms by (induction ws arbitrary: ad) auto

lemma members_F_other:
  assumes "\<And>i. i \<in> set is \<Longrightarrow> x \<noteq> s ! i"
  shows "members_F s is x l = l"
  using assms by (induction "is" arbitrary: l) (auto simp: member_F_def)

lemma members_F_member:
  assumes "distinct s" "distinct is" "\<And>i. i \<in> set is \<Longrightarrow> i < length s" "m \<in> set is"
  shows "members_F s is (s ! m) l = rewrite_list s (s ! (m + 1)) (m = length s - 1) l"
  using assms
proof (induction "is" arbitrary: l)
  case Nil
  then show ?case by simp
next
  case (Cons i "is")
  show ?case
  proof (cases "i = m")
    case True
    have "members_F s is (s ! m) l' = l'" for l'
    proof (rule members_F_other)
      fix j assume j: "j \<in> set is"
      then have "j \<noteq> m" "j < length s" "m < length s" using Cons.prems True by auto
      then show "s ! m \<noteq> s ! j" using Cons.prems(1) by (simp add: nth_eq_iff_index_eq)
    qed
    then show ?thesis using True by (simp add: member_F_def)
  next
    case False
    then have m: "m \<in> set is" using Cons.prems by simp
    have "i < length s" "m < length s" using Cons.prems by auto
    then have "s ! m \<noteq> s ! i" using False Cons.prems(1) by (simp add: nth_eq_iff_index_eq)
    then have "member_F s i (s ! m) l = l" by (simp add: member_F_def)
    moreover have "members_F s is (s ! m) l = rewrite_list s (s ! (m + 1)) (m = length s - 1) l"
      by (rule Cons.IH) (use Cons.prems m in auto)
    ultimately show ?thesis by simp
  qed
qed

lemma members_D_sum: "members_D s tbl is x = (\<Sum>i\<leftarrow>is. member_D s tbl i x)"
  by (induction "is") auto

lemma members_D_outside:
  assumes "x \<notin> set s" "\<And>i. i \<in> set is \<Longrightarrow> i < length s"
  shows "members_D s tbl is x = 0"
  using assms
proof (induction "is")
  case Nil
  then show ?case by simp
next
  case (Cons i "is")
  have "i < length s" using Cons.prems by simp
  have "x \<noteq> s ! (i + 1)" if "i \<noteq> length s - 1"
  proof -
    have "i + 1 < length s" using that \<open>i < length s\<close> by simp
    then show ?thesis using Cons.prems(1) nth_mem by metis
  qed
  moreover have "member_count s ws x = 0" for ws
    using Cons.prems(1) by (simp add: member_count_def count_list_0_iff)
  ultimately have "member_D s tbl i x = 0" by (auto simp: member_D_def)
  then show ?case using Cons by simp
qed

lemma member_count_member: "x \<in> set s \<Longrightarrow> member_count s ws x = int (count_list ws x)"
  unfolding member_count_def by (induction ws) auto

lemma sort_nth_mem: "i < length c \<Longrightarrow> sort c ! i \<in> set c"
  using nth_mem[of i "sort c"] by simp

lemma is_component_resolvable:
  assumes "is_component c tbl"
  shows "resolvable (sort c) (rev [0..<length (sort c)]) tbl"
proof -
  let ?s = "sort c"
  have mem: "\<exists>info. tbl t = Some info \<and> is_complete info
                           \<and> (\<exists>w \<in> set (waited_by info). w \<in> set ?s)" if "t \<in> set ?s" for t
    using assms that by (simp add: is_component_def)
  have "member_ok ?s tbl i" if "i < length ?s" for i
    unfolding member_ok_def using mem[of "?s ! i"] that sort_nth_mem[of i c] by simp
  moreover have "tbl t \<noteq> None" if "t \<in> set ?s" for t using mem[OF that] by auto
  moreover have "distinct ?s" using assms by (simp add: is_component_def)
  ultimately show ?thesis by (simp add: resolvable_def)
qed

lemma ResolveDeadlock_resolved:
  assumes "is_component (ssc r) (snapshot r)"
  shows "ResolveDeadlock r
           = Inr (if is_ready (entry (resolved (sort (ssc r)) (snapshot r)) (sort (ssc r) ! 0))
                  then Some (sort (ssc r) ! 0) else None,
                  r\<lparr>ssc := sort (ssc r), snapshot := resolved (sort (ssc r)) (snapshot r)\<rparr>)"
proof -
  let ?s = "sort (ssc r)"
  have len: "2 \<le> length (ssc r)" using assms by (simp add: is_component_def)
  have rm: "resolve_members ?s (rev [0..<length ?s]) (snapshot r) = Inr (resolved ?s (snapshot r))"
    unfolding resolved_def by (rule resolve_members_effect[OF is_component_resolvable[OF assms]])
  have "?s ! 0 \<in> set (ssc r)" by (rule sort_nth_mem) (use len in auto)
  then have "snapshot r (?s ! 0) \<noteq> None" using assms by (auto simp: is_component_def)
  then obtain h where h: "resolved ?s (snapshot r) (?s ! 0) = Some h"
    by (auto simp: resolved_def effect_def)
  show ?thesis using len rm h by (simp add: ResolveDeadlock_def Let_def entry_def)
qed

lemma resolved_waited_by:
  assumes "is_component c tbl" "i < length c"
  shows "waited_by (entry (resolved (sort c) tbl) (sort c ! i))
           = rewrite_list (sort c) (sort c ! (i + 1)) (i = length c - 1)
               (waited_by (entry tbl (sort c ! i)))"
proof -
  let ?s = "sort c"
  have d: "distinct ?s" using assms by (simp add: is_component_def)
  have "?s ! i \<in> set c" using assms(2) by (simp add: sort_nth_mem)
  then have p: "tbl (?s ! i) \<noteq> None" using assms by (auto simp: is_component_def)
  have "members_F ?s (rev [0..<length ?s]) (?s ! i) l
          = rewrite_list ?s (?s ! (i + 1)) (i = length ?s - 1) l" for l
    by (rule members_F_member[OF d]) (use assms(2) in auto)
  then show ?thesis using p by (simp add: resolved_def entry_effect)
qed

lemma resolved_outside:
  assumes "t \<notin> set c"
  shows "resolved (sort c) tbl t = tbl t"
proof -
  let ?s = "sort c" and ?is = "rev [0..<length (sort c)]"
  have "members_D ?s tbl ?is t = 0"
    by (rule members_D_outside) (use assms in auto)
  moreover have "members_F ?s ?is t l = l" for l
    by (rule members_F_other) (use assms sort_nth_mem in auto)
  ultimately show ?thesis
    by (cases "tbl t") (auto simp: resolved_def effect_def)
qed

lemma sum_list_neg: "(\<Sum>i\<leftarrow>xs. - f i) = - (\<Sum>i\<leftarrow>xs. (f i :: int))"
  by (induction xs) auto

lemma resolved_head_counter:
  assumes "is_component c tbl"
  shows "num_waiting_for (entry (resolved (sort c) tbl) (sort c ! 0))
           = num_waiting_for (entry tbl (sort c ! 0)) - component_occurrences (sort c) tbl (sort c ! 0)"
proof -
  let ?s = "sort c" and ?h = "sort c ! 0"
  have d: "distinct ?s" and len: "2 \<le> length ?s" using assms by (simp_all add: is_component_def)
  have hc: "?h \<in> set c" by (rule sort_nth_mem) (use len in auto)
  then have hm: "?h \<in> set ?s" by simp
  have p: "tbl ?h \<noteq> None" using hc assms by (auto simp: is_component_def)
  have md: "member_D ?s tbl i ?h = - int (count_list (waited_by (entry tbl (?s ! i))) ?h)"
    if "i < length ?s" for i
  proof -
    have "?h \<noteq> ?s ! (i + 1)" if "i \<noteq> length ?s - 1"
    proof -
      have a: "i + 1 < length ?s" using that \<open>i < length ?s\<close> by simp
      have b: "0 < length ?s" using len by auto
      show ?thesis using nth_eq_iff_index_eq[OF d b a] by simp
    qed
    then show ?thesis using hm by (auto simp: member_D_def member_count_member)
  qed
  have "members_D ?s tbl (rev [0..<length ?s]) ?h
          = (\<Sum>i\<leftarrow>[0..<length ?s]. member_D ?s tbl i ?h)"
    by (simp add: members_D_sum rev_map[symmetric] sum_list_rev del: length_sort)
  also have "\<dots> = (\<Sum>i\<leftarrow>[0..<length ?s]. - int (count_list (waited_by (entry tbl (?s ! i))) ?h))"
    by (rule arg_cong[where f = sum_list], rule map_cong) (auto simp: md simp del: length_sort)
  also have "\<dots> = - (\<Sum>i\<leftarrow>[0..<length ?s]. int (count_list (waited_by (entry tbl (?s ! i))) ?h))"
    by (rule sum_list_neg)
  also have "(\<Sum>i\<leftarrow>[0..<length ?s]. int (count_list (waited_by (entry tbl (?s ! i))) ?h))
          = (\<Sum>t\<leftarrow>map (\<lambda>i. ?s ! i) [0..<length ?s]. int (count_list (waited_by (entry tbl t)) ?h))"
    by (simp add: comp_def del: length_sort)
  also have "map (\<lambda>i. ?s ! i) [0..<length ?s] = ?s" by (rule map_nth)
  finally have "members_D ?s tbl (rev [0..<length ?s]) ?h = - component_occurrences ?s tbl ?h"
    by (simp add: component_occurrences_def)
  then show ?thesis using p by (simp add: resolved_def entry_effect)
qed

lemma rewrite_list_filter':
  assumes "kSentinelTxnId \<notin> set s" "ad \<or> nx \<in> set s"
  shows "filter (\<lambda>w. w \<in> set s) (rewrite_list s nx ad ws)
           = (if \<not> ad \<and> (\<exists>w \<in> set ws. w \<in> set s) then [nx] else [])"
  using assms by (induction ws arbitrary: ad) auto

lemma is_component_member:
  assumes "is_component c tbl" "i < length c"
  obtains info where "tbl (sort c ! i) = Some info" "is_complete info"
    "\<exists>w \<in> set (waited_by info). w \<in> set c"
proof -
  have "sort c ! i \<in> set c" using assms(2) by (rule sort_nth_mem)
  then show ?thesis using assms(1) that unfolding is_component_def by blast
qed

lemma sort_21: "sort [2, 1 :: TxnId] = [1, 2]"
  by code_simp

lemma two_cycle_component: "is_component [2, 1] two_cycle_table"
  by (simp add: is_component_def two_cycle_table_def is_complete_def)

text \<open>
  C1, as the claim states it, fails for the last member: the largest transaction of the
  component gets no new edge. In the cycle of 1 and 2 the only slot of 2 becomes the
  sentinel, and 1 alone has an edge afterwards.
\<close>

theorem ResolveDeadlock_last_member_no_edge:
  "(case ResolveDeadlock (resolver_at two_cycle_table [2, 1]) of
      Inl e \<Rightarrow> False
    | Inr (ready, r') \<Rightarrow>
        ready = Some 1 \<and> ssc r' = [1, 2]
      \<and> snapshot r' 1 = Some \<lparr>info_id = 1, unarrived_lock_requests = 0, num_waiting_for = 0, waited_by = [2]\<rparr>
      \<and> snapshot r' 2 = Some \<lparr>info_id = 2, unarrived_lock_requests = 0, num_waiting_for = 1, waited_by = [kSentinelTxnId]\<rparr>)"
  by code_simp

text \<open>
  C1, amended. \<open>ResolveDeadlock\<close> on a component of \<open>k\<close> members, none of them the sentinel,
  returns with the members sorted ascending, \<open>s\<close>, and the waited-by lists rewritten into
  the path \<open>s ! (k - 1)\<close> waits for \<open>s ! (k - 2)\<close> ... waits for \<open>s ! 0\<close>: the lists keep
  their lengths; a slot that held no member is as before; a slot that held a member
  holds the sentinel or, for a member other than the last, the next member, which is
  written into the first slot that held a member (the list of \<open>s ! i\<close> is rewritten by
  \<open>rewrite_list\<close>); afterwards
  the only member in the list of \<open>s ! i\<close> is \<open>s ! (i + 1)\<close>, once, and the list of the last
  member \<open>s ! (k - 1)\<close> holds no member; \<open>s ! 0\<close> is in no list of a member. The entries of
  the other transactions are unchanged.
\<close>

theorem ResolveDeadlock_rewrites_to_path:
  assumes "is_component (ssc r) (snapshot r)" and "kSentinelTxnId \<notin> set (ssc r)"
    and "s = sort (ssc r)"
  shows "\<exists>ready r'. ResolveDeadlock r = Inr (ready, r')
     \<and> ssc r' = s
     \<and> (\<forall>t. t \<notin> set s \<longrightarrow> snapshot r' t = snapshot r t)
     \<and> (\<forall>i < length s.
          waited_by (entry (snapshot r') (s ! i))
            = rewrite_list s (s ! (i + 1)) (i = length s - 1)
                (waited_by (entry (snapshot r) (s ! i)))
        \<and> length (waited_by (entry (snapshot r') (s ! i)))
            = length (waited_by (entry (snapshot r) (s ! i)))
        \<and> (\<forall>j < length (waited_by (entry (snapshot r) (s ! i))).
              (waited_by (entry (snapshot r) (s ! i)) ! j \<notin> set s \<longrightarrow>
                 waited_by (entry (snapshot r') (s ! i)) ! j
                   = waited_by (entry (snapshot r) (s ! i)) ! j)
            \<and> (waited_by (entry (snapshot r) (s ! i)) ! j \<in> set s \<longrightarrow>
                 waited_by (entry (snapshot r') (s ! i)) ! j = kSentinelTxnId
                 \<or> (Suc i < length s \<and> waited_by (entry (snapshot r') (s ! i)) ! j = s ! Suc i)))
        \<and> filter (\<lambda>w. w \<in> set s) (waited_by (entry (snapshot r') (s ! i)))
            = (if Suc i < length s then [s ! Suc i] else [])
        \<and> s ! 0 \<notin> set (waited_by (entry (snapshot r') (s ! i))))"
proof -
  let ?tbl = "snapshot r" and ?c = "ssc r"
  let ?tbl' = "resolved s ?tbl"
  let ?r' = "r\<lparr>ssc := s, snapshot := ?tbl'\<rparr>"
  have len: "length s = length ?c" and set: "set s = set ?c" and d: "distinct s"
    using assms by (simp_all add: is_component_def)
  have two: "2 \<le> length s" using assms len by (simp add: is_component_def)
  have run: "ResolveDeadlock r
           = Inr (if is_ready (entry ?tbl' (s ! 0)) then Some (s ! 0) else None, ?r')"
    unfolding assms(3) using assms(1) by (rule ResolveDeadlock_resolved)
  have out: "?tbl' t = ?tbl t" if "t \<notin> set s" for t
    unfolding assms(3) by (rule resolved_outside) (use that set assms(3) in simp)
  have member: "waited_by (entry ?tbl' (s ! i))
            = rewrite_list s (s ! (i + 1)) (i = length s - 1) (waited_by (entry ?tbl (s ! i)))
        \<and> length (waited_by (entry ?tbl' (s ! i))) = length (waited_by (entry ?tbl (s ! i)))
        \<and> (\<forall>j < length (waited_by (entry ?tbl (s ! i))).
              (waited_by (entry ?tbl (s ! i)) ! j \<notin> set s \<longrightarrow>
                 waited_by (entry ?tbl' (s ! i)) ! j = waited_by (entry ?tbl (s ! i)) ! j)
            \<and> (waited_by (entry ?tbl (s ! i)) ! j \<in> set s \<longrightarrow>
                 waited_by (entry ?tbl' (s ! i)) ! j = kSentinelTxnId
                 \<or> (Suc i < length s \<and> waited_by (entry ?tbl' (s ! i)) ! j = s ! Suc i)))
        \<and> filter (\<lambda>w. w \<in> set s) (waited_by (entry ?tbl' (s ! i)))
            = (if Suc i < length s then [s ! Suc i] else [])
        \<and> s ! 0 \<notin> set (waited_by (entry ?tbl' (s ! i)))"
    if i: "i < length s" for i
  proof -
    let ?old = "waited_by (entry ?tbl (s ! i))" and ?new = "waited_by (entry ?tbl' (s ! i))"
    let ?ad = "i = length ?c - 1"
    have ic: "i < length ?c" using i len by simp
    have new: "?new = rewrite_list s (s ! (i + 1)) ?ad ?old"
      unfolding assms(3) by (rule resolved_waited_by[OF assms(1) ic])
    have ad: "\<not> ?ad \<longleftrightarrow> Suc i < length s" using i len by auto
    from is_component_member[OF assms(1) ic] obtain info
      where info: "?tbl (sort ?c ! i) = Some info" and slot: "\<exists>w \<in> set (waited_by info). w \<in> set ?c"
      by blast
    have slot': "\<exists>w \<in> set ?old. w \<in> set s"
      using info slot set by (simp add: entry_def assms(3))
    have nx: "?ad \<or> s ! (i + 1) \<in> set s" using ad by auto
    have sent: "kSentinelTxnId \<notin> set s" using assms(2) set by simp
    have f: "filter (\<lambda>w. w \<in> set s) ?new = (if Suc i < length s then [s ! Suc i] else [])"
      unfolding new rewrite_list_filter'[OF sent nx] using slot' ad by simp
    have h: "s ! 0 \<notin> set ?new"
    proof
      assume "s ! 0 \<in> set ?new"
      moreover have "s ! 0 \<in> set s" by (rule nth_mem) (use two in auto)
      ultimately have "s ! 0 \<in> set (filter (\<lambda>w. w \<in> set s) ?new)" by simp
      then have a: "Suc i < length s" and b: "s ! 0 = s ! Suc i"
        unfolding f by (auto split: if_splits)
      have "0 < length s" using two by auto
      from nth_eq_iff_index_eq[OF d this a] b show False by simp
    qed
    have n: "(?old ! j \<notin> set s \<longrightarrow> ?new ! j = ?old ! j)
            \<and> (?old ! j \<in> set s \<longrightarrow> ?new ! j = kSentinelTxnId
                 \<or> (Suc i < length s \<and> ?new ! j = s ! Suc i))" if "j < length ?old" for j
      using rewrite_list_nth[OF that, of s "s ! (i + 1)" ?ad] ad unfolding new by auto
    have new': "?new = rewrite_list s (s ! (i + 1)) (i = length s - 1) ?old"
      using new len by simp
    have l: "length ?new = length ?old" unfolding new by simp
    show ?thesis using new' l f h n by blast
  qed
  have sn: "snapshot ?r' = ?tbl'" and sc: "ssc ?r' = s" by simp_all
  show ?thesis
    by (intro exI[of _ "if is_ready (entry ?tbl' (s ! 0)) then Some (s ! 0) else None"] exI[of _ ?r'])
       (use run out member in \<open>simp only: sn sc, blast\<close>)
qed

theorem ResolveDeadlock_rewrites_to_path_witness:
  "is_component [2, 1] two_cycle_table \<and> kSentinelTxnId \<notin> set [2, 1 :: TxnId]
   \<and> (\<exists>ready r'. ResolveDeadlock (resolver_at two_cycle_table [2, 1]) = Inr (ready, r')
        \<and> ssc r' = [1, 2]
        \<and> filter (\<lambda>w. w \<in> set [1, 2]) (waited_by (entry (snapshot r') 1)) = [2]
        \<and> filter (\<lambda>w. w \<in> set [1, 2]) (waited_by (entry (snapshot r') 2)) = [])"
proof -
  let ?r = "resolver_at two_cycle_table [2, 1]"
  have c: "is_component (ssc ?r) (snapshot ?r)"
    using two_cycle_component by (simp add: resolver_at_def)
  have z: "kSentinelTxnId \<notin> set (ssc ?r)" by (simp add: resolver_at_def kSentinelTxnId_def)
  have s: "[1, 2] = sort (ssc ?r)" by (simp add: resolver_at_def sort_21 del: sort_key_simps)
  from ResolveDeadlock_rewrites_to_path[OF c z s] obtain ready r'
    where run: "ResolveDeadlock ?r = Inr (ready, r')" and sr: "ssc r' = [1, 2]"
      and p: "\<And>i. i < length [1, 2 :: TxnId] \<Longrightarrow>
             filter (\<lambda>w. w \<in> set [1, 2]) (waited_by (entry (snapshot r') ([1, 2] ! i)))
               = (if Suc i < length [1, 2 :: TxnId] then [[1, 2] ! Suc i] else [])"
    by blast
  from p[of 0] p[of 1] have "filter (\<lambda>w. w \<in> set [1, 2]) (waited_by (entry (snapshot r') 1)) = [2]"
    "filter (\<lambda>w. w \<in> set [1, 2]) (waited_by (entry (snapshot r') 2)) = []"
    by simp_all
  then show ?thesis using two_cycle_component z run sr by (auto simp: resolver_at_def)
qed

text \<open>
  C3, as the claim states it, fails where the smallest member waits for a transaction
  outside the component. Transaction 3 holds the key \<open>c\<close>; 1 waits for 3 and for 2, and 2
  waits for 1. The pass resolves the component of 1 and 2 (the slot of 2 becomes the
  sentinel), no member is ready afterwards, nothing is published and no signal is sent.
\<close>

theorem Loop_resolves_without_ready:
  "(case lm_run blocked_cycle new_DDRLockManager of
      Inl e \<Rightarrow> False
    | Inr lm \<Rightarrow>
        map (txn_info lm) [1, 2, 3]
          = [Some \<lparr>info_id = 1, unarrived_lock_requests = 0, num_waiting_for = 2, waited_by = [2]\<rparr>,
             Some \<lparr>info_id = 2, unarrived_lock_requests = 0, num_waiting_for = 1, waited_by = [1]\<rparr>,
             Some \<lparr>info_id = 3, unarrived_lock_requests = 0, num_waiting_for = 0, waited_by = [1]\<rparr>]
      \<and> (case Loop 4 [1, 2, 3] lm of
            Some (Inr (signal, lm')) \<Rightarrow>
              \<not> signal \<and> ready_txns lm' = []
            \<and> map (txn_info lm') [1, 2, 3]
              = [Some \<lparr>info_id = 1, unarrived_lock_requests = 0, num_waiting_for = 1, waited_by = [2]\<rparr>,
                 Some \<lparr>info_id = 2, unarrived_lock_requests = 0, num_waiting_for = 1, waited_by = [kSentinelTxnId]\<rparr>,
                 Some \<lparr>info_id = 3, unarrived_lock_requests = 0, num_waiting_for = 0, waited_by = [1]\<rparr>]
          | _ \<Rightarrow> False))"
  by code_simp

text \<open>
  C3, amended. \<open>ResolveDeadlock\<close> on a component returns the smallest member \<open>s ! 0\<close> as
  ready exactly when its counter is 0 after the rewrite, and returns no other member;
  the counter of \<open>s ! 0\<close> after the rewrite is its counter before less the number of the
  slots in the lists of the members that held \<open>s ! 0\<close>, so \<open>s ! 0\<close> is ready exactly when it
  waited for members of the component only.
\<close>

theorem ResolveDeadlock_head_ready:
  assumes "is_component (ssc r) (snapshot r)" and "s = sort (ssc r)"
  shows "\<exists>ready r'. ResolveDeadlock r = Inr (ready, r')
     \<and> num_waiting_for (entry (snapshot r') (s ! 0))
         = num_waiting_for (entry (snapshot r) (s ! 0)) - component_occurrences s (snapshot r) (s ! 0)
     \<and> ready = (if num_waiting_for (entry (snapshot r') (s ! 0)) = 0 then Some (s ! 0) else None)"
proof -
  let ?tbl = "snapshot r" and ?c = "ssc r"
  let ?tbl' = "resolved s ?tbl"
  let ?r' = "r\<lparr>ssc := s, snapshot := ?tbl'\<rparr>"
  have run: "ResolveDeadlock r
           = Inr (if is_ready (entry ?tbl' (s ! 0)) then Some (s ! 0) else None, ?r')"
    unfolding assms(2) using assms(1) by (rule ResolveDeadlock_resolved)
  have cnt: "num_waiting_for (entry ?tbl' (s ! 0))
         = num_waiting_for (entry ?tbl (s ! 0)) - component_occurrences s ?tbl (s ! 0)"
    unfolding assms(2) using assms(1) by (rule resolved_head_counter)
  have "0 < length ?c" using assms(1) by (auto simp: is_component_def)
  from is_component_member[OF assms(1) this] obtain info
    where info: "?tbl (s ! 0) = Some info" and c: "is_complete info"
    unfolding assms(2) by blast
  have "?tbl (s ! 0) \<noteq> None" using info by simp
  from entry_effect[of ?tbl "s ! 0", OF this] have "is_complete (entry ?tbl' (s ! 0))"
    using info c by (simp add: resolved_def is_complete_def entry_def)
  then have "is_ready (entry ?tbl' (s ! 0)) \<longleftrightarrow> num_waiting_for (entry ?tbl' (s ! 0)) = 0"
    by (simp add: is_ready_def)
  then show ?thesis
    using run cnt by (intro exI[of _ "if is_ready (entry ?tbl' (s ! 0)) then Some (s ! 0) else None"] exI[of _ ?r']) simp
qed

theorem ResolveDeadlock_head_ready_witness:
  "is_component [2, 1] two_cycle_table
   \<and> (\<exists>r'. ResolveDeadlock (resolver_at two_cycle_table [2, 1]) = Inr (Some 1, r')
        \<and> num_waiting_for (entry (snapshot r') 1) = 0)"
proof -
  let ?r = "resolver_at two_cycle_table [2, 1]"
  have c: "is_component (ssc ?r) (snapshot ?r)"
    using two_cycle_component by (simp add: resolver_at_def)
  have s: "[1, 2] = sort (ssc ?r)" by (simp add: resolver_at_def sort_21 del: sort_key_simps)
  have o: "component_occurrences [1, 2] two_cycle_table 1 = 1"
    by (simp add: component_occurrences_def two_cycle_table_def entry_def)
  from ResolveDeadlock_head_ready[OF c s] obtain ready r'
    where run: "ResolveDeadlock ?r = Inr (ready, r')"
      and n: "num_waiting_for (entry (snapshot r') ([1, 2] ! 0))
         = num_waiting_for (entry (snapshot ?r) ([1, 2] ! 0))
           - component_occurrences [1, 2] (snapshot ?r) ([1, 2] ! 0)"
      and rd: "ready = (if num_waiting_for (entry (snapshot r') ([1, 2] ! 0)) = 0
                        then Some ([1, 2] ! 0) else None)"
    by blast
  have "num_waiting_for (entry (snapshot r') 1) = 0"
    using n o by (simp add: resolver_at_def two_cycle_table_def entry_def)
  then show ?thesis using two_cycle_component run rd by auto
qed

section \<open>Properties of a pass of the resolver\<close>

subsection \<open>The first traversal\<close>

text \<open>
  The steps of the loop over a waited-by list, the preservation of the invariant by the
  three events of the traversal (an edge to a node seen before, the discovery of a node,
  the end of a call), and the result of a call of \<open>FindTopoOrderAndTranspose\<close> and of the
  loop over the snapshot: with more fuel than the table has transactions they return,
  and the invariant holds of the state that they return.
\<close>

lemma visit_step_sentinel:
  "visit_waited_by f txn (kSentinelTxnId # ns) r = visit_waited_by f txn ns r"
  by simp

lemma visit_step_seen:
  assumes "n \<noteq> kSentinelTxnId" "snapshot r n = Some nb" "info_id nb = n"
    "aux_graph r n = Some nd" "visited nd"
  shows "visit_waited_by f txn (n # ns) r
           = visit_waited_by f txn ns
               (r\<lparr>aux_graph := (aux_graph r)(n \<mapsto> nd\<lparr>redges := redges nd @ [info_id txn]\<rparr>)\<rparr>)"
  using assms by (simp add: aux_emplace_def)

lemma visit_step_new:
  assumes "n \<noteq> kSentinelTxnId" "snapshot r n = Some nb" "info_id nb = n"
    "aux_graph r n = None"
  shows "visit_waited_by f txn (n # ns) r
           = (case FindTopoOrderAndTranspose f nb
                     (r\<lparr>aux_graph := (aux_graph r)(n \<mapsto>
                          \<lparr>node_id = n, node_is_complete = is_complete nb,
                           redges = [info_id txn], visited = True, comp_type = UNASSIGNED\<rparr>)\<rparr>) of
                None \<Rightarrow> None
              | Some (Inl e) \<Rightarrow> Some (Inl e)
              | Some (Inr r1) \<Rightarrow> visit_waited_by f txn ns r1)"
  using assms by (simp add: aux_emplace_def new_Node_def)

lemma finished_by_append: "finished_by T v u \<Longrightarrow> finished_by (T @ T') v u"
  unfolding finished_by_def by (metis append.assoc append_Cons)

lemma finished_by_last: "v \<in> set (T @ [u]) \<Longrightarrow> finished_by (T @ [u]) v u"
  unfolding finished_by_def by (metis append_Nil2)

lemma kosaraju_inv_mono_gray:
  "kosaraju_inv tbl G T \<Longrightarrow> G \<subseteq> G' \<Longrightarrow> kosaraju_inv tbl G' T"
  unfolding kosaraju_inv_def by blast

lemma same_scc_refl [simp]: "same_scc tbl x x"
  by (simp add: same_scc_def)

lemma same_scc_sym: "same_scc tbl x y \<Longrightarrow> same_scc tbl y x"
  by (simp add: same_scc_def)

lemma same_scc_trans: "same_scc tbl x y \<Longrightarrow> same_scc tbl y z \<Longrightarrow> same_scc tbl x z"
  unfolding same_scc_def by (meson rtrancl_trans)

lemma path_leaves:
  assumes "a \<in> F" and "\<And>x y. x \<in> F \<Longrightarrow> (x, y) \<in> E \<Longrightarrow> y \<in> V" and "(a, v) \<in> E\<^sup>*"
  shows "v \<in> F \<or> (\<exists>z \<in> V - F. (a, z) \<in> E\<^sup>* \<and> (z, v) \<in> E\<^sup>*)"
  using assms(3)
proof (induction rule: rtrancl_induct)
  case base
  then show ?case using assms(1) by simp
next
  case (step b c)
  show ?case
  proof (cases "b \<in> F")
    case True
    then have "c \<in> V" using assms(2) step.hyps(2) by blast
    show ?thesis
    proof (cases "c \<in> F")
      case False
      have "(a, c) \<in> E\<^sup>*" using step.hyps by (rule rtrancl.rtrancl_into_rtrancl)
      then show ?thesis using False \<open>c \<in> V\<close> by blast
    qed simp
  next
    case False
    then obtain z where "z \<in> V - F" "(a, z) \<in> E\<^sup>*" "(z, b) \<in> E\<^sup>*" using step.IH by blast
    then show ?thesis using step.hyps(2) by (meson rtrancl.rtrancl_into_rtrancl)
  qed
qed

lemma recorded_dom: "recorded g t n \<Longrightarrow> n \<in> dom g"
  by (auto simp: recorded_def)

lemma seen_preserves:
  assumes inv: "inv1 tbl r" and e: "(u, n) \<in> edges tbl" and nd: "aux_graph r n = Some nd"
  defines "r' \<equiv> r\<lparr>aux_graph := (aux_graph r)(n \<mapsto> nd\<lparr>redges := redges nd @ [u]\<rparr>)\<rparr>"
  shows "inv1 tbl r'" and "extends {} r r'" and "recorded (aux_graph r') u n"
    and "dom (aux_graph r') = dom (aux_graph r)" and "topo_order r' = topo_order r"
proof -
  have d: "dom (aux_graph r') = dom (aux_graph r)" using nd by (auto simp: r'_def)
  show "dom (aux_graph r') = dom (aux_graph r)" by (rule d)
  show t: "topo_order r' = topo_order r" by (simp add: r'_def)
  have mono: "recorded (aux_graph r') t m" if "recorded (aux_graph r) t m" for t m
    using that nd by (auto simp: recorded_def r'_def)
  show "recorded (aux_graph r') u n" by (simp add: recorded_def r'_def)
  have ok: "nodes_ok tbl (aux_graph r')"
    using inv e nd unfolding inv1_def nodes_ok_def r'_def by auto
  have g: "gray r' = gray r" by (simp add: gray_def d t)
  show "inv1 tbl r'"
    using inv ok mono unfolding inv1_def g t d by (auto simp: r'_def)
  show "extends {} r r'"
    unfolding extends_def using d t mono by (auto simp: r'_def)
qed

lemma discover_preserves:
  assumes inv: "inv1 tbl r" and e: "(u, n) \<in> edges tbl" and nd: "aux_graph r n = None"
    and nb: "tbl n = Some nb"
  defines "r' \<equiv> r\<lparr>aux_graph := (aux_graph r)(n \<mapsto>
                          \<lparr>node_id = n, node_is_complete = is_complete nb,
                           redges = [u], visited = True, comp_type = UNASSIGNED\<rparr>)\<rparr>"
  shows "inv1 tbl r'" and "recorded (aux_graph r') u n"
    and "dom (aux_graph r') = insert n (dom (aux_graph r))" and "topo_order r' = topo_order r"
    and "\<And>t m. recorded (aux_graph r) t m \<Longrightarrow> recorded (aux_graph r') t m"
    and "gray r' = insert n (gray r)"
proof -
  show d: "dom (aux_graph r') = insert n (dom (aux_graph r))" by (auto simp: r'_def)
  show t: "topo_order r' = topo_order r" by (simp add: r'_def)
  show mono: "recorded (aux_graph r') t m" if "recorded (aux_graph r) t m" for t m
    using that nd by (auto simp: recorded_def r'_def)
  show "recorded (aux_graph r') u n" by (simp add: recorded_def r'_def)
  have nt: "n \<notin> set (topo_order r)" using inv nd by (auto simp: inv1_def)
  show g: "gray r' = insert n (gray r)" using nt by (auto simp: gray_def d t)
  have ok: "nodes_ok tbl (aux_graph r')"
    using inv e nd nb unfolding inv1_def nodes_ok_def r'_def by auto
  have k: "kosaraju_inv tbl (gray r') (topo_order r')"
    unfolding t g using inv by (auto simp: inv1_def intro: kosaraju_inv_mono_gray)
  show "inv1 tbl r'"
    using inv ok mono k unfolding inv1_def t d by (auto simp: r'_def)
qed

lemma finish_preserves:
  assumes inv: "inv1 tbl r" and ug: "u \<in> gray r"
    and closure: "\<And>n. (u, n) \<in> edges tbl \<Longrightarrow> recorded (aux_graph r) u n"
    and s1: "\<And>g. g \<in> gray r \<Longrightarrow> (g, u) \<in> (edges tbl)\<^sup>*"
  defines "r' \<equiv> r\<lparr>topo_order := topo_order r @ [u]\<rparr>"
  shows "inv1 tbl r'" and "gray r' = gray r - {u}"
proof -
  let ?T = "topo_order r" and ?E = "edges tbl" and ?V = "dom (aux_graph r)"
  let ?F = "set (?T @ [u])"
  have unT: "u \<notin> set ?T" and uV: "u \<in> ?V" using ug by (auto simp: gray_def)
  show g': "gray r' = gray r - {u}" by (auto simp: gray_def r'_def)
  have rec: "recorded (aux_graph r) t n" if "t \<in> ?F" "(t, n) \<in> ?E" for t n
    using that inv closure by (auto simp: inv1_def)
  have cl: "y \<in> ?V" if "x \<in> ?F" "(x, y) \<in> ?E" for x y
    using rec[OF that] by (rule recorded_dom)
  have VF: "?V - ?F = gray r - {u}" by (auto simp: gray_def)
  have ucase: "(\<exists>g \<in> gray r - {u}. same_scc tbl g u)
             \<or> (\<exists>u'. same_scc tbl u' u \<and> finished_by (?T @ [u]) v u')"
    if "(u, v) \<in> ?E\<^sup>*" for v
  proof -
    have "v \<in> ?F \<or> (\<exists>z \<in> ?V - ?F. (u, z) \<in> ?E\<^sup>* \<and> (z, v) \<in> ?E\<^sup>*)"
    proof (rule path_leaves)
      show "u \<in> ?F" by simp
      show "(u, v) \<in> ?E\<^sup>*" by (rule that)
      show "y \<in> ?V" if "x \<in> ?F" "(x, y) \<in> ?E" for x y using that by (rule cl)
    qed
    then consider "v \<in> ?F" | z where "z \<in> ?V - ?F" "(u, z) \<in> ?E\<^sup>*" by blast
    then show ?thesis
    proof cases
      case 1
      then have "finished_by (?T @ [u]) v u" by (rule finished_by_last)
      then show ?thesis using same_scc_refl by blast
    next
      case 2
      then have zg: "z \<in> gray r - {u}" by (auto simp: gray_def)
      then have "(z, u) \<in> ?E\<^sup>*" using s1 by simp
      then have "same_scc tbl z u" using 2(2) by (simp add: same_scc_def)
      then show ?thesis using zg by blast
    qed
  qed
  have k: "kosaraju_inv tbl (gray r - {u}) (?T @ [u])"
    unfolding kosaraju_inv_def
  proof (intro ballI allI impI)
    fix x v assume x: "x \<in> ?F" and xv: "(x, v) \<in> ?E\<^sup>*"
    show "(\<exists>g \<in> gray r - {u}. same_scc tbl g x)
             \<or> (\<exists>u'. same_scc tbl u' x \<and> finished_by (?T @ [u]) v u')"
    proof (cases "x = u")
      case True
      then show ?thesis using ucase[of v] xv by simp
    next
      case False
      then have xT: "x \<in> set ?T" using x by simp
      have "(\<exists>g \<in> gray r. same_scc tbl g x) \<or> (\<exists>u'. same_scc tbl u' x \<and> finished_by ?T v u')"
        using inv xT xv unfolding inv1_def kosaraju_inv_def by blast
      then consider g where "g \<in> gray r" "same_scc tbl g x" "g \<noteq> u"
        | "same_scc tbl u x" | u' where "same_scc tbl u' x" "finished_by ?T v u'"
        by blast
      then show ?thesis
      proof cases
        case 1
        then show ?thesis by blast
      next
        case 2
        then have "(u, v) \<in> ?E\<^sup>*" using xv unfolding same_scc_def by (meson rtrancl_trans)
        from ucase[OF this] show ?thesis using 2 same_scc_trans by blast
      next
        case 3
        then show ?thesis using finished_by_append by blast
      qed
    qed
  qed
  have "distinct (?T @ [u])" using inv unT by (simp add: inv1_def)
  moreover have "?F \<subseteq> ?V" using inv uV by (auto simp: inv1_def)
  ultimately show "inv1 tbl r'"
    using inv rec k unfolding inv1_def g' by (simp add: r'_def)
qed

lemma extends_gray:
  assumes "extends A r r'"
  shows "gray r' = gray r - A"
proof -
  from assms obtain new where d: "dom (aux_graph r) \<subseteq> dom (aux_graph r')"
    and t: "topo_order r' = topo_order r @ new"
    and n: "set new = (dom (aux_graph r') - dom (aux_graph r)) \<union> A"
    unfolding extends_def by blast
  show ?thesis unfolding gray_def t using d n by auto
qed

lemma extends_trans:
  assumes "extends A r r1" "extends B r1 r2"
  shows "extends (A \<union> B) r r2"
proof -
  from assms(1) obtain n1 where d1: "dom (aux_graph r) \<subseteq> dom (aux_graph r1)"
    and t1: "topo_order r1 = topo_order r @ n1"
    and s1: "set n1 = (dom (aux_graph r1) - dom (aux_graph r)) \<union> A"
    unfolding extends_def by blast
  from assms(2) obtain n2 where d2: "dom (aux_graph r1) \<subseteq> dom (aux_graph r2)"
    and t2: "topo_order r2 = topo_order r1 @ n2"
    and s2: "set n2 = (dom (aux_graph r2) - dom (aux_graph r1)) \<union> B"
    unfolding extends_def by blast
  have "topo_order r2 = topo_order r @ (n1 @ n2)" using t1 t2 by simp
  moreover have "set (n1 @ n2) = (dom (aux_graph r2) - dom (aux_graph r)) \<union> (A \<union> B)"
    using s1 s2 d1 d2 by auto
  ultimately have "\<exists>new. topo_order r2 = topo_order r @ new
      \<and> set new = (dom (aux_graph r2) - dom (aux_graph r)) \<union> (A \<union> B)" by blast
  then show ?thesis using assms d1 d2 unfolding extends_def by auto
qed

lemma extends_refl: "extends {} r r"
  by (simp add: extends_def)

lemma visit_waited_by_correct:
  assumes P: "\<And>txn r. pre_dfs tbl txn r \<Longrightarrow> card (white tbl r) < f \<Longrightarrow>
                 \<exists>r'. FindTopoOrderAndTranspose f txn r = Some (Inr r') \<and> inv1 tbl r'
                      \<and> extends {info_id txn} r r'"
    and pre: "pre_dfs tbl txn r" and fuel: "card (white tbl r) \<le> f"
    and sub: "set ns \<subseteq> set (waited_by txn)"
    and rec0: "\<And>n. (info_id txn, n) \<in> edges tbl \<Longrightarrow> n \<notin> set ns \<Longrightarrow>
                 recorded (aux_graph r) (info_id txn) n"
  shows "\<exists>r'. visit_waited_by f txn ns r = Some (Inr r') \<and> inv1 tbl r' \<and> extends {} r r'
            \<and> (\<forall>n. (info_id txn, n) \<in> edges tbl \<longrightarrow> recorded (aux_graph r') (info_id txn) n)"
  using pre fuel sub rec0
proof (induction ns arbitrary: r)
  case Nil
  then show ?case using extends_refl by (auto simp: pre_dfs_def)
next
  case (Cons n ns)
  let ?u = "info_id txn"
  note pre = Cons.prems(1)
  have wf: "wf_table tbl" and inv: "inv1 tbl r" and tu: "tbl ?u = Some txn"
    and ug: "?u \<in> gray r" and s1: "\<forall>g \<in> gray r. (g, ?u) \<in> (edges tbl)\<^sup>*"
    using pre by (simp_all add: pre_dfs_def)
  have snap: "snapshot r = tbl" using inv by (simp add: inv1_def)
  have sub': "set ns \<subseteq> set (waited_by txn)" using Cons.prems(3) by simp
  show ?case
  proof (cases "n = kSentinelTxnId")
    case True
    have "\<exists>r'. visit_waited_by f txn ns r = Some (Inr r') \<and> inv1 tbl r' \<and> extends {} r r'
            \<and> (\<forall>n. (?u, n) \<in> edges tbl \<longrightarrow> recorded (aux_graph r') ?u n)"
    proof (rule Cons.IH[OF pre Cons.prems(2) sub'])
      fix m assume e: "(?u, m) \<in> edges tbl" and m: "m \<notin> set ns"
      have "m \<noteq> kSentinelTxnId" using e by (auto simp: edges_def)
      then show "recorded (aux_graph r) ?u m" using Cons.prems(4)[OF e] m True by simp
    qed
    then show ?thesis using True by simp
  next
    case False
    have e: "(?u, n) \<in> edges tbl" using False tu Cons.prems(3) by (auto simp: edges_def)
    obtain nb where nb: "tbl n = Some nb" and idn: "info_id nb = n"
    proof -
      have "n \<in> set (waited_by txn)" using Cons.prems(3) by simp
      then have "tbl n \<noteq> None" using wf tu False unfolding wf_table_def by blast
      then obtain nb where "tbl n = Some nb" by blast
      moreover from this have "info_id nb = n" using wf unfolding wf_table_def by blast
      ultimately show ?thesis using that by blast
    qed
    show ?thesis
    proof (cases "aux_graph r n")
      case (Some nd)
      then have v: "visited nd" using inv by (auto simp: inv1_def nodes_ok_def)
      define r1 where "r1 = r\<lparr>aux_graph := (aux_graph r)(n \<mapsto> nd\<lparr>redges := redges nd @ [?u]\<rparr>)\<rparr>"
      have step: "visit_waited_by f txn (n # ns) r = visit_waited_by f txn ns r1"
        unfolding r1_def using False nb idn Some v snap by (intro visit_step_seen) auto
      note sp = seen_preserves[OF inv e Some, folded r1_def]
      have g1: "gray r1 = gray r" using sp(4,5) by (simp add: gray_def)
      have pre1: "pre_dfs tbl txn r1"
        using wf sp(1) tu ug s1 g1 by (simp add: pre_dfs_def)
      have fuel1: "card (white tbl r1) \<le> f" using Cons.prems(2) sp(4) by (simp add: white_def)
      have "\<exists>r'. visit_waited_by f txn ns r1 = Some (Inr r') \<and> inv1 tbl r' \<and> extends {} r1 r'
            \<and> (\<forall>n. (?u, n) \<in> edges tbl \<longrightarrow> recorded (aux_graph r') ?u n)"
      proof (rule Cons.IH[OF pre1 fuel1 sub'])
        fix m assume em: "(?u, m) \<in> edges tbl" and m: "m \<notin> set ns"
        show "recorded (aux_graph r1) ?u m"
        proof (cases "m = n")
          case True
          then show ?thesis using sp(3) by simp
        next
          case False
          then have "recorded (aux_graph r) ?u m" using Cons.prems(4)[OF em] m by simp
          then show ?thesis using sp(2) by (auto simp: extends_def)
        qed
      qed
      then obtain r' where r': "visit_waited_by f txn ns r1 = Some (Inr r')" "inv1 tbl r'"
        "extends {} r1 r'" "\<forall>n. (?u, n) \<in> edges tbl \<longrightarrow> recorded (aux_graph r') ?u n"
        by blast
      have "extends {} r r'" using extends_trans[OF sp(2) r'(3)] by simp
      then show ?thesis using step r' by auto
    next
      case None
      define r0 where "r0 = r\<lparr>aux_graph := (aux_graph r)(n \<mapsto>
                          \<lparr>node_id = n, node_is_complete = is_complete nb,
                           redges = [?u], visited = True, comp_type = UNASSIGNED\<rparr>)\<rparr>"
      have step: "visit_waited_by f txn (n # ns) r
           = (case FindTopoOrderAndTranspose f nb r0 of
                None \<Rightarrow> None
              | Some (Inl e) \<Rightarrow> Some (Inl e)
              | Some (Inr r1) \<Rightarrow> visit_waited_by f txn ns r1)"
        unfolding r0_def using False nb idn None snap by (intro visit_step_new) auto
      note dp = discover_preserves[OF inv e None nb, folded r0_def]
      have pre0: "pre_dfs tbl nb r0"
        unfolding pre_dfs_def
      proof (intro conjI ballI)
        show "wf_table tbl" by (rule wf)
        show "inv1 tbl r0" by (rule dp(1))
        show "tbl (info_id nb) = Some nb" using nb idn by simp
        show "info_id nb \<in> gray r0" using dp(6) idn by simp
        fix g assume "g \<in> gray r0"
        then consider "g = n" | "g \<in> gray r" using dp(6) by auto
        then show "(g, info_id nb) \<in> (edges tbl)\<^sup>*"
        proof cases
          case 1
          then show ?thesis using idn by simp
        next
          case 2
          then have "(g, ?u) \<in> (edges tbl)\<^sup>*" using s1 by simp
          then show ?thesis using e idn by (meson rtrancl.rtrancl_into_rtrancl)
        qed
      qed
      have fin: "finite (white tbl r)" using wf by (simp add: white_def wf_table_def)
      have nw: "n \<in> white tbl r" using nb None by (auto simp: white_def)
      have w0: "white tbl r0 = white tbl r - {n}" using dp(3) by (auto simp: white_def)
      have "card (white tbl r0) < card (white tbl r)"
        unfolding w0 using fin nw by (rule card_Diff1_less)
      then have fuel0: "card (white tbl r0) < f" using Cons.prems(2) by simp
      from P[OF pre0 fuel0] obtain r1 where r1: "FindTopoOrderAndTranspose f nb r0 = Some (Inr r1)"
        "inv1 tbl r1" "extends {n} r0 r1" using idn by auto
      have g1: "gray r1 = gray r" using extends_gray[OF r1(3)] dp(6) None
        by (auto simp: gray_def)
      have ex01: "extends {} r r1"
      proof -
        from r1(3) obtain new where d: "dom (aux_graph r0) \<subseteq> dom (aux_graph r1)"
          and t: "topo_order r1 = topo_order r0 @ new"
          and sn: "set new = (dom (aux_graph r1) - dom (aux_graph r0)) \<union> {n}"
          and rec: "\<forall>t m. recorded (aux_graph r0) t m \<longrightarrow> recorded (aux_graph r1) t m"
          and rest: "ssc r1 = ssc r0" "to_be_updated r1 = to_be_updated r0"
            "new_ready_txns r1 = new_ready_txns r0"
          unfolding extends_def by blast
        have "topo_order r1 = topo_order r @ new" using t dp(4) by simp
        moreover have "set new = (dom (aux_graph r1) - dom (aux_graph r)) \<union> {}"
          using sn d dp(3) None by auto
        moreover have "dom (aux_graph r) \<subseteq> dom (aux_graph r1)" using d dp(3) by auto
        moreover have "\<forall>t m. recorded (aux_graph r) t m \<longrightarrow> recorded (aux_graph r1) t m"
          using rec dp(5) by blast
        moreover have "ssc r1 = ssc r" "to_be_updated r1 = to_be_updated r"
            "new_ready_txns r1 = new_ready_txns r" using rest by (simp_all add: r0_def)
        ultimately show ?thesis unfolding extends_def by blast
      qed
      have pre1: "pre_dfs tbl txn r1"
        using wf r1(2) tu ug s1 g1 by (simp add: pre_dfs_def)
      have "white tbl r1 \<subseteq> white tbl r" using ex01 by (auto simp: white_def extends_def)
      then have "card (white tbl r1) \<le> card (white tbl r)" using fin by (rule card_mono[rotated])
      then have fuel1: "card (white tbl r1) \<le> f" using Cons.prems(2) by simp
      have "\<exists>r'. visit_waited_by f txn ns r1 = Some (Inr r') \<and> inv1 tbl r' \<and> extends {} r1 r'
            \<and> (\<forall>n. (?u, n) \<in> edges tbl \<longrightarrow> recorded (aux_graph r') ?u n)"
      proof (rule Cons.IH[OF pre1 fuel1 sub'])
        fix m assume em: "(?u, m) \<in> edges tbl" and m: "m \<notin> set ns"
        show "recorded (aux_graph r1) ?u m"
        proof (cases "m = n")
          case True
          then show ?thesis using dp(2) r1(3) by (auto simp: extends_def)
        next
          case False
          then have "recorded (aux_graph r) ?u m" using Cons.prems(4)[OF em] m by simp
          then show ?thesis using ex01 by (auto simp: extends_def)
        qed
      qed
      then obtain r' where r': "visit_waited_by f txn ns r1 = Some (Inr r')" "inv1 tbl r'"
        "extends {} r1 r'" "\<forall>n. (?u, n) \<in> edges tbl \<longrightarrow> recorded (aux_graph r') ?u n"
        by blast
      have "extends {} r r'" using extends_trans[OF ex01 r'(3)] by simp
      then show ?thesis using step r1(1) r' by auto
    qed
  qed
qed

lemma FindTopoOrderAndTranspose_correct:
  assumes "pre_dfs tbl txn r" "card (white tbl r) < f"
  shows "\<exists>r'. FindTopoOrderAndTranspose f txn r = Some (Inr r') \<and> inv1 tbl r'
              \<and> extends {info_id txn} r r'"
  using assms
proof (induction f arbitrary: txn r)
  case 0
  then show ?case by simp
next
  case (Suc f)
  let ?u = "info_id txn"
  note pre = Suc.prems(1)
  have tu: "tbl ?u = Some txn" and ug: "?u \<in> gray r"
    and s1: "\<forall>g \<in> gray r. (g, ?u) \<in> (edges tbl)\<^sup>*"
    using pre by (simp_all add: pre_dfs_def)
  have "\<exists>r'. visit_waited_by f txn (waited_by txn) r = Some (Inr r') \<and> inv1 tbl r'
            \<and> extends {} r r'
            \<and> (\<forall>n. (?u, n) \<in> edges tbl \<longrightarrow> recorded (aux_graph r') ?u n)"
  proof (rule visit_waited_by_correct[OF _ pre])
    show "\<exists>r'. FindTopoOrderAndTranspose f txn' r0 = Some (Inr r') \<and> inv1 tbl r'
              \<and> extends {info_id txn'} r0 r'"
      if "pre_dfs tbl txn' r0" "card (white tbl r0) < f" for txn' r0
      using that by (rule Suc.IH)
    show "card (white tbl r) \<le> f" using Suc.prems(2) by simp
    show "set (waited_by txn) \<subseteq> set (waited_by txn)" by simp
    show "recorded (aux_graph r) ?u n" if "(?u, n) \<in> edges tbl" "n \<notin> set (waited_by txn)" for n
      using that tu by (auto simp: edges_def)
  qed
  then obtain r1 where r1: "visit_waited_by f txn (waited_by txn) r = Some (Inr r1)"
    "inv1 tbl r1" "extends {} r r1"
    "\<And>n. (?u, n) \<in> edges tbl \<Longrightarrow> recorded (aux_graph r1) ?u n"
    by blast
  have g1: "gray r1 = gray r" using extends_gray[OF r1(3)] by simp
  define r' where "r' = r1\<lparr>topo_order := topo_order r1 @ [?u]\<rparr>"
  have run: "FindTopoOrderAndTranspose (Suc f) txn r = Some (Inr r')"
    using r1(1) by (simp add: r'_def)
  have fp: "inv1 tbl r'" "gray r' = gray r1 - {?u}"
    unfolding r'_def
    by (rule finish_preserves[OF r1(2) _ r1(4)]; use ug s1 g1 in simp)+
  have "extends {?u} r1 r'"
    unfolding extends_def r'_def by auto
  from extends_trans[OF r1(3) this] have "extends {?u} r r'" by simp
  then show ?case using run fp(1) by blast
qed

lemma root_preserves:
  assumes inv: "inv1 tbl r" and nd: "aux_graph r n = None" and nb: "tbl n = Some nb"
  defines "r' \<equiv> r\<lparr>aux_graph := (aux_graph r)(n \<mapsto>
                          \<lparr>node_id = n, node_is_complete = is_complete nb,
                           redges = [], visited = True, comp_type = UNASSIGNED\<rparr>)\<rparr>"
  shows "inv1 tbl r'"
    and "dom (aux_graph r') = insert n (dom (aux_graph r))" and "topo_order r' = topo_order r"
    and "\<And>t m. recorded (aux_graph r) t m \<Longrightarrow> recorded (aux_graph r') t m"
    and "gray r' = insert n (gray r)"
proof -
  show d: "dom (aux_graph r') = insert n (dom (aux_graph r))" by (auto simp: r'_def)
  show t: "topo_order r' = topo_order r" by (simp add: r'_def)
  show mono: "recorded (aux_graph r') t m" if "recorded (aux_graph r) t m" for t m
    using that nd by (auto simp: recorded_def r'_def)
  have nt: "n \<notin> set (topo_order r)" using inv nd by (auto simp: inv1_def)
  show g: "gray r' = insert n (gray r)" using nt by (auto simp: gray_def d t)
  have ok: "nodes_ok tbl (aux_graph r')"
    using inv nd nb unfolding inv1_def nodes_ok_def r'_def by auto
  have k: "kosaraju_inv tbl (gray r') (topo_order r')"
    unfolding t g using inv by (auto simp: inv1_def intro: kosaraju_inv_mono_gray)
  show "inv1 tbl r'"
    using inv ok mono k unfolding inv1_def t d by (auto simp: r'_def)
qed

lemma find_topo_order_step_new:
  assumes "snapshot r k = Some txn" "info_id txn = k" "aux_graph r k = None"
  shows "find_topo_order f (k # ks) r
           = (case FindTopoOrderAndTranspose f txn
                     (r\<lparr>aux_graph := (aux_graph r)(k \<mapsto>
                          \<lparr>node_id = k, node_is_complete = is_complete txn,
                           redges = [], visited = True, comp_type = UNASSIGNED\<rparr>)\<rparr>) of
                None \<Rightarrow> None
              | Some (Inl e) \<Rightarrow> Some (Inl e)
              | Some (Inr r1) \<Rightarrow> find_topo_order f ks r1)"
  using assms by (simp add: aux_emplace_def new_Node_def)

lemma find_topo_order_step_seen:
  assumes "snapshot r k = Some txn" "info_id txn = k" "aux_graph r k = Some nd" "visited nd"
  shows "find_topo_order f (k # ks) r = find_topo_order f ks r"
  using assms by (simp add: aux_emplace_def)

lemma find_topo_order_correct:
  assumes "wf_table tbl" "inv1 tbl r" "gray r = {}" "card (dom tbl) < f"
  shows "\<exists>r'. find_topo_order f ks r = Some (Inr r') \<and> inv1 tbl r' \<and> gray r' = {}
              \<and> dom (aux_graph r) \<union> (set ks \<inter> dom tbl) \<subseteq> dom (aux_graph r')
              \<and> ssc r' = ssc r \<and> to_be_updated r' = to_be_updated r
              \<and> new_ready_txns r' = new_ready_txns r"
  using assms(2,3)
proof (induction ks arbitrary: r)
  case Nil
  then show ?case by simp
next
  case (Cons k ks)
  note inv = Cons.prems(1)
  have snap: "snapshot r = tbl" using inv by (simp add: inv1_def)
  show ?case
  proof (cases "tbl k")
    case None
    then have "find_topo_order f (k # ks) r = find_topo_order f ks r" using snap by simp
    moreover have "set (k # ks) \<inter> dom tbl = set ks \<inter> dom tbl" using None by auto
    ultimately show ?thesis using Cons.IH[OF Cons.prems] by simp
  next
    case (Some txn)
    have idk: "info_id txn = k" using assms(1) Some unfolding wf_table_def by blast
    show ?thesis
    proof (cases "aux_graph r k")
      case nd: (Some nd)
      then have "visited nd" using inv by (auto simp: inv1_def nodes_ok_def)
      then have "find_topo_order f (k # ks) r = find_topo_order f ks r"
        using Some idk nd snap by (intro find_topo_order_step_seen) auto
      moreover have "dom (aux_graph r) \<union> (set (k # ks) \<inter> dom tbl)
                   = dom (aux_graph r) \<union> (set ks \<inter> dom tbl)" using nd by auto
      ultimately show ?thesis using Cons.IH[OF Cons.prems] by simp
    next
      case None
      define r0 where "r0 = r\<lparr>aux_graph := (aux_graph r)(k \<mapsto>
                          \<lparr>node_id = k, node_is_complete = is_complete txn,
                           redges = [], visited = True, comp_type = UNASSIGNED\<rparr>)\<rparr>"
      have step: "find_topo_order f (k # ks) r
           = (case FindTopoOrderAndTranspose f txn r0 of
                None \<Rightarrow> None
              | Some (Inl e) \<Rightarrow> Some (Inl e)
              | Some (Inr r1) \<Rightarrow> find_topo_order f ks r1)"
        unfolding r0_def using Some idk None snap by (intro find_topo_order_step_new) auto
      note rp = root_preserves[OF inv None Some, folded r0_def]
      have g0: "gray r0 = {k}" using rp(5) Cons.prems(2) by simp
      have pre0: "pre_dfs tbl txn r0"
        unfolding pre_dfs_def using assms(1) rp(1) Some idk g0 by auto
      have "white tbl r0 \<subseteq> dom tbl" by (auto simp: white_def)
      then have "card (white tbl r0) \<le> card (dom tbl)"
        using assms(1) by (auto simp: wf_table_def intro: card_mono)
      then have fuel0: "card (white tbl r0) < f" using assms(4) by simp
      from FindTopoOrderAndTranspose_correct[OF pre0 fuel0]
      obtain r1 where r1: "FindTopoOrderAndTranspose f txn r0 = Some (Inr r1)" "inv1 tbl r1"
        "extends {k} r0 r1" using idk by auto
      have g1: "gray r1 = {}" using extends_gray[OF r1(3)] g0 by simp
      from Cons.IH[OF r1(2) g1] obtain r' where r': "find_topo_order f ks r1 = Some (Inr r')"
        "inv1 tbl r'" "gray r' = {}"
        "dom (aux_graph r1) \<union> (set ks \<inter> dom tbl) \<subseteq> dom (aux_graph r')"
        "ssc r' = ssc r1" "to_be_updated r' = to_be_updated r1"
        "new_ready_txns r' = new_ready_txns r1" by blast
      have d01: "dom (aux_graph r0) \<subseteq> dom (aux_graph r1)" using r1(3) by (simp add: extends_def)
      have "dom (aux_graph r) \<union> (set (k # ks) \<inter> dom tbl) \<subseteq> dom (aux_graph r')"
      proof
        fix x assume "x \<in> dom (aux_graph r) \<union> (set (k # ks) \<inter> dom tbl)"
        then have "x \<in> dom (aux_graph r0) \<or> x \<in> set ks \<inter> dom tbl"
          unfolding rp(2) by auto
        then show "x \<in> dom (aux_graph r')" using d01 r'(4) by blast
      qed
      moreover have "ssc r1 = ssc r" "to_be_updated r1 = to_be_updated r"
        "new_ready_txns r1 = new_ready_txns r"
        using r1(3) by (simp_all add: extends_def r0_def)
      ultimately show ?thesis using step r1(1) r' by simp
    qed
  qed
qed

subsection \<open>The second traversal\<close>

text \<open>
  A call of \<open>FormStronglyConnectedComponent\<close> on an unassigned node returns, with fuel for
  the unassigned nodes; it adds to the component the nodes that it collects, marks them,
  and returns their \<open>stable_flag\<close>.
\<close>

lemma mark_mark: "mark c B (mark c A g) = mark c (A \<union> B) g"
  by (rule ext) (auto simp: mark_def map_option_case split: option.splits)

lemma mark_empty [simp]: "mark c {} g = g"
  by (simp add: mark_def)

lemma dom_mark [simp]: "dom (mark c N g) = dom g"
  by (auto simp: mark_def split: if_splits)

lemma graph_ok_mark:
  assumes "graph_ok tbl g"
  shows "graph_ok tbl (mark c N g)"
proof -
  have "dom (mark c N g) = dom tbl" using assms by (simp add: graph_ok_def)
  moreover have "node_id nd = n \<and> (\<exists>i. tbl n = Some i \<and> node_is_complete nd = is_complete i)
            \<and> set (redges nd) = preds tbl n" if m: "mark c N g n = Some nd" for n nd
  proof (cases "n \<in> N")
    case True
    then obtain nd0 where "g n = Some nd0" "nd = nd0\<lparr>comp_type := c\<rparr>"
      using m by (auto simp: mark_def)
    then show ?thesis using assms unfolding graph_ok_def by auto
  next
    case False
    then have "g n = Some nd" using m by (simp add: mark_def)
    then show ?thesis using assms unfolding graph_ok_def by blast
  qed
  ultimately show ?thesis unfolding graph_ok_def by blast
qed

lemma unassigned_mark_STABLE: "unassigned (mark STABLE N g) = unassigned g - N"
  by (auto simp: unassigned_def mark_def split: if_splits)

lemma unstable_mark_STABLE:
  "N \<subseteq> unassigned g \<Longrightarrow> unstable (mark STABLE N g) y \<longleftrightarrow> unstable g y"
  by (auto simp: unassigned_def unstable_def mark_def split: if_splits)

lemma mark_single:
  "g k = Some nd \<Longrightarrow> g(k \<mapsto> nd\<lparr>comp_type := c\<rparr>) = mark c {k} g"
  by (rule ext) (auto simp: mark_def)

lemma visit_redges_unassigned:
  assumes "aux_graph r n = Some nb" "comp_type nb = UNASSIGNED"
  shows "visit_redges f (n # ns) b r
           = (case FormStronglyConnectedComponent f n r of
                None \<Rightarrow> None
              | Some (Inl e) \<Rightarrow> Some (Inl e)
              | Some (Inr (b1, r1)) \<Rightarrow> visit_redges f ns (b \<and> b1) r1)"
  using assms by simp

lemma visit_redges_assigned:
  assumes "aux_graph r n = Some nb" "comp_type nb \<noteq> UNASSIGNED"
  shows "visit_redges f (n # ns) b r = visit_redges f ns (b \<and> comp_type nb \<noteq> UNSTABLE) r"
  using assms by (cases "comp_type nb") auto

lemma scc_state_scc_state:
  "scc_state (scc_state r l1) l2 = scc_state r (l1 @ l2)"
  by (simp add: scc_state_def mark_mark)

lemma scc_state_Nil [simp]: "scc_state r [] = r"
  by (simp add: scc_state_def)

lemma stable_flag_Un:
  "stable_flag tbl g (A \<union> B) \<longleftrightarrow> stable_flag tbl g A \<and> stable_flag tbl g B"
  by (auto simp: stable_flag_def)

lemma stable_flag_mark:
  "N \<subseteq> unassigned g \<Longrightarrow> stable_flag tbl (mark STABLE N g) A \<longleftrightarrow> stable_flag tbl g A"
  by (simp add: stable_flag_def unstable_mark_STABLE)

lemma visit_redges_correct:
  assumes P: "\<And>k r. graph_ok tbl (aux_graph r) \<Longrightarrow> k \<in> unassigned (aux_graph r) \<Longrightarrow>
                 card (unassigned (aux_graph r)) \<le> f \<Longrightarrow>
                 \<exists>b newl. FormStronglyConnectedComponent f k r = Some (Inr (b, scc_state r newl))
                   \<and> k \<in> set newl \<and> collected tbl (aux_graph r) k newl
                   \<and> b = stable_flag tbl (aux_graph r) (set newl)"
    and fin: "finite (dom tbl)"
    and ok: "graph_ok tbl (aux_graph r)" and sub: "set ns \<subseteq> preds tbl x"
    and fuel: "card (unassigned (aux_graph r)) \<le> f"
  shows "\<exists>b' newl. visit_redges f ns b r = Some (Inr (b', scc_state r newl))
           \<and> collected tbl (aux_graph r) x newl
           \<and> (\<forall>y \<in> set ns. y \<notin> unassigned (aux_graph r) - set newl)
           \<and> b' = (b \<and> stable_flag tbl (aux_graph r) (set newl)
                    \<and> (\<forall>y \<in> set ns. \<not> unstable (aux_graph r) y))"
  using ok sub fuel
proof (induction ns arbitrary: r b)
  case Nil
  have "collected tbl (aux_graph r) x []" by (simp add: collected_def closed_in_def)
  moreover have "stable_flag tbl (aux_graph r) (set [])" by (simp add: stable_flag_def)
  ultimately show ?case
    by (intro exI[of _ b] exI[of _ "[]"]) simp
next
  case (Cons n ns)
  let ?g = "aux_graph r"
  note ok = Cons.prems(1)
  have nx: "(n, x) \<in> edges tbl" using Cons.prems(2) by (simp add: preds_def)
  then have "n \<in> dom tbl" by (auto simp: edges_def)
  then have "n \<in> dom ?g" using ok by (simp add: graph_ok_def)
  then obtain nb where nb: "?g n = Some nb" by blast
  have sub': "set ns \<subseteq> preds tbl x" using Cons.prems(2) by simp
  have finU: "finite (unassigned g')" if "graph_ok tbl g'" for g'
  proof -
    have "unassigned g' \<subseteq> dom g'" by (auto simp: unassigned_def)
    then show ?thesis using that fin by (auto simp: graph_ok_def intro: finite_subset)
  qed
  show ?case
  proof (cases "comp_type nb = UNASSIGNED")
    case False
    have step: "visit_redges f (n # ns) b r
                  = visit_redges f ns (b \<and> comp_type nb \<noteq> UNSTABLE) r"
      using nb False by (rule visit_redges_assigned)
    from Cons.IH[OF ok sub' Cons.prems(3), of "b \<and> comp_type nb \<noteq> UNSTABLE"]
    obtain b' newl where r: "visit_redges f ns (b \<and> comp_type nb \<noteq> UNSTABLE) r
                               = Some (Inr (b', scc_state r newl))"
      and c: "collected tbl ?g x newl"
      and a: "\<forall>y \<in> set ns. y \<notin> unassigned ?g - set newl"
      and b': "b' = ((b \<and> comp_type nb \<noteq> UNSTABLE) \<and> stable_flag tbl ?g (set newl)
                    \<and> (\<forall>y \<in> set ns. \<not> unstable ?g y))"
      by blast
    have "n \<notin> unassigned ?g" using nb False by (simp add: unassigned_def)
    moreover have "unstable ?g n \<longleftrightarrow> comp_type nb = UNSTABLE" using nb by (simp add: unstable_def)
    ultimately show ?thesis
      using step r c a b' by (intro exI[of _ b'] exI[of _ newl]) auto
  next
    case True
    have step: "visit_redges f (n # ns) b r
           = (case FormStronglyConnectedComponent f n r of
                None \<Rightarrow> None
              | Some (Inl e) \<Rightarrow> Some (Inl e)
              | Some (Inr (b1, r1)) \<Rightarrow> visit_redges f ns (b \<and> b1) r1)"
      using nb True by (rule visit_redges_unassigned)
    have nu: "n \<in> unassigned ?g" using nb True by (simp add: unassigned_def)
    from P[OF ok nu Cons.prems(3)] obtain b1 l1
      where r1: "FormStronglyConnectedComponent f n r = Some (Inr (b1, scc_state r l1))"
        and n1: "n \<in> set l1" and c1: "collected tbl ?g n l1"
        and b1: "b1 = stable_flag tbl ?g (set l1)"
      by blast
    let ?r1 = "scc_state r l1"
    let ?g1 = "aux_graph ?r1"
    have g1: "?g1 = mark STABLE (set l1) ?g" by (simp add: scc_state_def)
    have l1u: "set l1 \<subseteq> unassigned ?g" using c1 by (simp add: collected_def)
    have ok1: "graph_ok tbl ?g1" unfolding g1 using ok by (rule graph_ok_mark)
    have u1: "unassigned ?g1 = unassigned ?g - set l1" unfolding g1 by (rule unassigned_mark_STABLE)
    have "card (unassigned ?g1) \<le> card (unassigned ?g)"
      unfolding u1 using finU[OF ok] by (intro card_mono) auto
    then have fuel1: "card (unassigned ?g1) \<le> f" using Cons.prems(3) by simp
    from Cons.IH[OF ok1 sub' fuel1, of "b \<and> b1"]
    obtain b' l2 where r2: "visit_redges f ns (b \<and> b1) ?r1 = Some (Inr (b', scc_state ?r1 l2))"
      and c2: "collected tbl ?g1 x l2"
      and a2: "\<forall>y \<in> set ns. y \<notin> unassigned ?g1 - set l2"
      and b': "b' = ((b \<and> b1) \<and> stable_flag tbl ?g1 (set l2)
                    \<and> (\<forall>y \<in> set ns. \<not> unstable ?g1 y))"
      by blast
    have run: "visit_redges f (n # ns) b r = Some (Inr (b', scc_state r (l1 @ l2)))"
      using step r1 r2 by (simp add: scc_state_scc_state)
    have l2u: "set l2 \<subseteq> unassigned ?g - set l1" using c2 u1 by (simp add: collected_def)
    have col: "collected tbl ?g x (l1 @ l2)"
      unfolding collected_def
    proof (intro conjI ballI)
      show "distinct (l1 @ l2)" using c1 c2 l2u by (auto simp: collected_def)
      show "set (l1 @ l2) \<subseteq> unassigned ?g" using l1u l2u by auto
      show "(w, x) \<in> (edges tbl)\<^sup>*" if "w \<in> set (l1 @ l2)" for w
      proof (cases "w \<in> set l1")
        case True
        then have "(w, n) \<in> (edges tbl)\<^sup>*" using c1 by (simp add: collected_def)
        then show ?thesis using nx by (meson rtrancl.rtrancl_into_rtrancl)
      next
        case False
        then show ?thesis using that c2 by (simp add: collected_def)
      qed
      show "closed_in tbl ?g (set (l1 @ l2))"
        using c1 c2 u1 unfolding collected_def closed_in_def by auto
    qed
    have acc: "\<forall>y \<in> set (n # ns). y \<notin> unassigned ?g - set (l1 @ l2)"
      using a2 u1 n1 by auto
    have "stable_flag tbl ?g1 (set l2) \<longleftrightarrow> stable_flag tbl ?g (set l2)"
      unfolding g1 using l1u by (rule stable_flag_mark)
    moreover have "unstable ?g1 y \<longleftrightarrow> unstable ?g y" for y
      unfolding g1 using l1u by (rule unstable_mark_STABLE)
    moreover have "\<not> unstable ?g n" using nb True by (simp add: unstable_def)
    ultimately have "b' = (b \<and> stable_flag tbl ?g (set (l1 @ l2))
                    \<and> (\<forall>y \<in> set (n # ns). \<not> unstable ?g y))"
      using b' b1 by (auto simp: stable_flag_Un)
    then show ?thesis using run col acc by blast
  qed
qed

lemma FormStronglyConnectedComponent_correct:
  assumes fin: "finite (dom tbl)"
  shows "graph_ok tbl (aux_graph r) \<Longrightarrow> k \<in> unassigned (aux_graph r) \<Longrightarrow>
         card (unassigned (aux_graph r)) \<le> f \<Longrightarrow>
         \<exists>b newl. FormStronglyConnectedComponent f k r = Some (Inr (b, scc_state r newl))
           \<and> k \<in> set newl \<and> collected tbl (aux_graph r) k newl
           \<and> b = stable_flag tbl (aux_graph r) (set newl)"
proof (induction f arbitrary: k r)
  case 0
  have "unassigned (aux_graph r) \<subseteq> dom (aux_graph r)" by (auto simp: unassigned_def)
  then have "finite (unassigned (aux_graph r))"
    using 0(1) fin by (auto simp: graph_ok_def intro: finite_subset)
  then show ?case using 0(2,3) by auto
next
  case (Suc f)
  let ?g = "aux_graph r"
  note ok = Suc.prems(1)
  have finU: "finite (unassigned ?g)"
  proof -
    have "unassigned ?g \<subseteq> dom ?g" by (auto simp: unassigned_def)
    then show ?thesis using ok fin by (auto simp: graph_ok_def intro: finite_subset)
  qed
  from Suc.prems(2) obtain nd where nd: "?g k = Some nd" and un: "comp_type nd = UNASSIGNED"
    by (auto simp: unassigned_def)
  have props: "node_id nd = k \<and> (\<exists>i. tbl k = Some i \<and> node_is_complete nd = is_complete i)
      \<and> set (redges nd) = preds tbl k"
    using ok nd unfolding graph_ok_def by blast
  have idk: "node_id nd = k" and red: "set (redges nd) = preds tbl k"
    using props by simp_all
  have comp: "node_is_complete nd = complete tbl k"
    using props by (auto simp: complete_def)
  let ?r0 = "scc_state r [k]"
  have r0: "r\<lparr>ssc := ssc r @ [node_id nd],
             aux_graph := (aux_graph r)(k \<mapsto> nd\<lparr>comp_type := STABLE\<rparr>)\<rparr> = ?r0"
    using idk mark_single[of "aux_graph r" k nd STABLE] nd by (simp add: scc_state_def)
  have step: "FormStronglyConnectedComponent (Suc f) k r
                = visit_redges f (redges nd) (node_is_complete nd) ?r0"
    using nd r0 by simp
  have g0: "aux_graph ?r0 = mark STABLE {k} ?g" by (simp add: scc_state_def)
  have ok0: "graph_ok tbl (aux_graph ?r0)" unfolding g0 using ok by (rule graph_ok_mark)
  have u0: "unassigned (aux_graph ?r0) = unassigned ?g - {k}"
    unfolding g0 by (rule unassigned_mark_STABLE)
  have "card (unassigned ?g - {k}) < card (unassigned ?g)"
    using finU Suc.prems(2) by (intro card_Diff1_less)
  then have fuel0: "card (unassigned (aux_graph ?r0)) \<le> f" using Suc.prems(3) u0 by simp
  have sub: "set (redges nd) \<subseteq> preds tbl k" using red by simp
  from visit_redges_correct[where tbl = tbl and f = f and r = ?r0 and ns = "redges nd"
        and x = k and b = "node_is_complete nd", OF Suc.IH fin ok0 sub fuel0]
  obtain b' l where run: "visit_redges f (redges nd) (node_is_complete nd) ?r0
                            = Some (Inr (b', scc_state ?r0 l))"
    and c: "collected tbl (aux_graph ?r0) k l"
    and a: "\<forall>y \<in> set (redges nd). y \<notin> unassigned (aux_graph ?r0) - set l"
    and b': "b' = (node_is_complete nd \<and> stable_flag tbl (aux_graph ?r0) (set l)
                    \<and> (\<forall>y \<in> set (redges nd). \<not> unstable (aux_graph ?r0) y))"
    by blast
  have ku: "{k} \<subseteq> unassigned ?g" using Suc.prems(2) by simp
  have res: "FormStronglyConnectedComponent (Suc f) k r = Some (Inr (b', scc_state r (k # l)))"
    using step run by (simp add: scc_state_scc_state)
  have col: "collected tbl ?g k (k # l)"
    unfolding collected_def
  proof (intro conjI ballI)
    show "distinct (k # l)" using c u0 by (auto simp: collected_def)
    show "set (k # l) \<subseteq> unassigned ?g" using c u0 Suc.prems(2) by (auto simp: collected_def)
    show "(w, k) \<in> (edges tbl)\<^sup>*" if "w \<in> set (k # l)" for w
      using that c by (auto simp: collected_def)
    show "closed_in tbl ?g (set (k # l))"
      using c a u0 red unfolding collected_def closed_in_def by auto
  qed
  have "stable_flag tbl (aux_graph ?r0) (set l) \<longleftrightarrow> stable_flag tbl ?g (set l)"
    unfolding g0 using ku by (rule stable_flag_mark)
  moreover have "unstable (aux_graph ?r0) y \<longleftrightarrow> unstable ?g y" for y
    unfolding g0 using ku by (rule unstable_mark_STABLE)
  ultimately have "b' = stable_flag tbl ?g (set (k # l))"
    using b' comp red by (auto simp: stable_flag_def)
  then show ?case using res col by (intro exI[of _ b'] exI[of _ "k # l"]) simp
qed

subsection \<open>The loop over the topological order\<close>

text \<open>
  At an unassigned node of the topological order the second traversal collects the
  component of the node, no more and no less (\<open>root_scc\<close>), and its flag says whether the
  transactions of the component are stable (\<open>stable_flag_scc\<close>). Every member of a
  component of two or more has a slot that holds a member, so \<open>ResolveDeadlock\<close> passes
  its checks, and the loop keeps its invariant.
\<close>

lemma edge_dom: "(x, y) \<in> edges tbl \<Longrightarrow> x \<in> dom tbl"
  by (auto simp: edges_def)

lemma edge_target: "wf_table tbl \<Longrightarrow> (x, y) \<in> edges tbl \<Longrightarrow> y \<in> dom tbl"
  unfolding wf_table_def edges_def by blast

lemma reach_dom:
  assumes "wf_table tbl" "(x, y) \<in> (edges tbl)\<^sup>*" "x \<in> dom tbl"
  shows "y \<in> dom tbl"
  using assms(2,3)
proof (induction rule: rtrancl_induct)
  case base
  then show ?case by simp
next
  case (step y z)
  show ?case using edge_target[OF assms(1) step.hyps(2)] .
qed

lemma scc_of_dom:
  assumes "wf_table tbl" "x \<in> dom tbl"
  shows "scc_of tbl x \<subseteq> dom tbl"
  using reach_dom[OF assms(1) _ assms(2)] by (auto simp: scc_of_def same_scc_def)

lemma scc_of_finite:
  assumes "wf_table tbl" "x \<in> dom tbl"
  shows "finite (scc_of tbl x)"
  using scc_of_dom[OF assms] assms(1) by (auto simp: wf_table_def intro: finite_subset)

lemma scc_of_self [simp]: "x \<in> scc_of tbl x"
  by (simp add: scc_of_def)

lemma scc_of_eq: "same_scc tbl x y \<Longrightarrow> scc_of tbl x = scc_of tbl y"
  unfolding scc_of_def using same_scc_sym same_scc_trans by blast

lemma stable_txn_scc:
  assumes "same_scc tbl x y"
  shows "stable_txn tbl x = stable_txn tbl y"
  using assms unfolding stable_txn_def same_scc_def by (meson rtrancl_trans)

lemma resolves_scc: "same_scc tbl x y \<Longrightarrow> resolves tbl x = resolves tbl y"
  by (simp add: resolves_def stable_txn_scc[of tbl x y] scc_of_eq[of tbl x y])

lemma order_conflict:
  assumes d: "distinct (T1 @ u # T2)" and eq: "T1 @ u # T2 = A @ t # B"
    and t: "t \<in> set T1" and u: "u \<in> set A"
  shows False
proof -
  from t obtain P Q where T1: "T1 = P @ t # Q" by (auto dest: split_list)
  have e: "P @ t # (Q @ u # T2) = A @ t # B" using eq T1 by simp
  have "t \<notin> set P" "t \<notin> set (Q @ u # T2)" using d T1 by auto
  then have "P = A" using e by (simp add: append_Cons_eq_iff)
  then show False using u d T1 by auto
qed

lemma root_scc:
  assumes inv: "kosaraju_inv tbl {} T" and d: "distinct T" and rv: "rev T = done0 @ t # ts"
    and U: "unassigned g \<subseteq> set (t # ts)"
    and cl: "\<forall>x y. same_scc tbl x y \<longrightarrow> x \<in> unassigned g \<longrightarrow> y \<in> unassigned g"
    and tu: "t \<in> unassigned g" and col: "collected tbl g t newl" and tn: "t \<in> set newl"
  shows "set newl = scc_of tbl t"
proof (intro equalityI subsetI)
  have T: "T = rev ts @ t # rev done0"
  proof -
    have "T = rev (rev T)" by simp
    also have "\<dots> = rev ts @ t # rev done0" unfolding rv by simp
    finally show ?thesis .
  qed
  fix w assume w: "w \<in> set newl"
  then have wu: "w \<in> unassigned g" and wt: "(w, t) \<in> (edges tbl)\<^sup>*"
    using col by (auto simp: collected_def)
  have "w \<in> set T" using wu U T by auto
  then obtain u' where s: "same_scc tbl u' w" and f: "finished_by T t u'"
    using inv wt unfolding kosaraju_inv_def by blast
  have "u' \<in> unassigned g" using cl same_scc_sym[OF s] wu by blast
  then have u'ts: "u' \<in> set (t # ts)" using U by auto
  from f obtain T1 T2 where T12: "T = T1 @ u' # T2" and tin: "t \<in> set (T1 @ [u'])"
    by (auto simp: finished_by_def)
  have "u' = t"
  proof (rule ccontr)
    assume ne: "u' \<noteq> t"
    then have a: "t \<in> set T1" using tin by auto
    have b: "u' \<in> set (rev ts)" using u'ts ne by auto
    have dd: "distinct (T1 @ u' # T2)" using d T12 by simp
    have ee: "T1 @ u' # T2 = rev ts @ t # rev done0" using T T12 by simp
    show False by (rule order_conflict[OF dd ee a b])
  qed
  then show "w \<in> scc_of tbl t" using s by (simp add: scc_of_def)
next
  fix w assume "w \<in> scc_of tbl t"
  then have tw: "(t, w) \<in> (edges tbl)\<^sup>*" and wt: "(w, t) \<in> (edges tbl)\<^sup>*"
    by (auto simp: scc_of_def same_scc_def)
  have closed: "closed_in tbl g (set newl)" using col by (simp add: collected_def)
  have "(t, z) \<in> (edges tbl)\<^sup>* \<longrightarrow> z \<in> set newl" if "(z, t) \<in> (edges tbl)\<^sup>*" for z
    using that
  proof (induction rule: converse_rtrancl_induct)
    case base
    show ?case using tn by simp
  next
    case (step z y)
    show ?case
    proof
      assume tz: "(t, z) \<in> (edges tbl)\<^sup>*"
      then have "(t, y) \<in> (edges tbl)\<^sup>*" using step.hyps(1) by (meson rtrancl.rtrancl_into_rtrancl)
      then have y: "y \<in> set newl" using step.IH by simp
      have "(z, t) \<in> (edges tbl)\<^sup>*"
        using step.hyps(1,2) by (meson converse_rtrancl_into_rtrancl)
      then have "same_scc tbl t z" using tz by (simp add: same_scc_def)
      then have zu: "z \<in> unassigned g" using cl tu by blast
      have "z \<in> preds tbl y" using step.hyps(1) by (simp add: preds_def)
      then have "z \<notin> unassigned g - set newl" using closed y unfolding closed_in_def by blast
      then show "z \<in> set newl" using zu by simp
    qed
  qed
  then show "w \<in> set newl" using tw wt by blast
qed

lemma stable_flag_scc:
  assumes ok: "graph_ok tbl g"
    and st: "\<forall>x nd. g x = Some nd \<longrightarrow> comp_type nd \<noteq> UNASSIGNED \<longrightarrow>
                 comp_type nd = (if stable_txn tbl x then STABLE else UNSTABLE)"
    and closed: "closed_in tbl g C" and CU: "C \<subseteq> unassigned g"
  shows "stable_flag tbl g C \<longleftrightarrow> (\<forall>x \<in> C. stable_txn tbl x)"
proof
  assume fl: "stable_flag tbl g C"
  have outside: "stable_txn tbl y" if "x \<in> C" "y \<in> preds tbl x" "y \<notin> C" for x y
  proof -
    have "y \<in> dom tbl" using that(2) by (auto simp: preds_def dest: edge_dom)
    then have "y \<in> dom g" using ok by (simp add: graph_ok_def)
    then obtain nd where nd: "g y = Some nd" by blast
    have "y \<notin> unassigned g" using closed that unfolding closed_in_def by blast
    then have a: "comp_type nd \<noteq> UNASSIGNED" using nd by (simp add: unassigned_def)
    have "\<not> unstable g y" using fl that(1,2) by (simp add: stable_flag_def)
    then have "comp_type nd \<noteq> UNSTABLE" using nd by (simp add: unstable_def)
    then show ?thesis using st nd a by (metis)
  qed
  show "\<forall>x \<in> C. stable_txn tbl x"
  proof
    fix x assume xC: "x \<in> C"
    have "z \<in> C \<longrightarrow> complete tbl m" if "(m, z) \<in> (edges tbl)\<^sup>*" for m z
      using that
    proof (induction rule: rtrancl_induct)
      case base
      show ?case using fl by (simp add: stable_flag_def)
    next
      case (step y z)
      show ?case
      proof
        assume zC: "z \<in> C"
        have yp: "y \<in> preds tbl z" using step.hyps(2) by (simp add: preds_def)
        show "complete tbl m"
        proof (cases "y \<in> C")
          case True
          then show ?thesis using step.IH by simp
        next
          case False
          then have "stable_txn tbl y" using outside[OF zC yp] by simp
          then show ?thesis using step.hyps(1) by (simp add: stable_txn_def)
        qed
      qed
    qed
    then show "stable_txn tbl x" using xC by (simp add: stable_txn_def)
  qed
next
  assume all: "\<forall>x \<in> C. stable_txn tbl x"
  show "stable_flag tbl g C"
    unfolding stable_flag_def
  proof (intro ballI conjI)
    fix x assume xC: "x \<in> C"
    then have sx: "stable_txn tbl x" using all by simp
    then show "complete tbl x" by (simp add: stable_txn_def)
    fix y assume yp: "y \<in> preds tbl x"
    then have yx: "(y, x) \<in> edges tbl" by (simp add: preds_def)
    have sy: "stable_txn tbl y"
      unfolding stable_txn_def
    proof (intro allI impI)
      fix m assume "(m, y) \<in> (edges tbl)\<^sup>*"
      then have "(m, x) \<in> (edges tbl)\<^sup>*" using yx by (meson rtrancl.rtrancl_into_rtrancl)
      then show "complete tbl m" using sx by (simp add: stable_txn_def)
    qed
    show "\<not> unstable g y"
    proof
      assume "unstable g y"
      then obtain nd where nd: "g y = Some nd" "comp_type nd = UNSTABLE"
        by (auto simp: unstable_def)
      then have "comp_type nd = (if stable_txn tbl y then STABLE else UNSTABLE)"
        using st by (metis ComponentType.distinct(3))
      then show False using sy nd by simp
    qed
  qed
qed

lemma scc_member_edge:
  assumes big: "\<exists>y \<in> scc_of tbl t. y \<noteq> x" and x: "x \<in> scc_of tbl t"
  shows "\<exists>info. tbl x = Some info \<and> (\<exists>w \<in> set (waited_by info). w \<in> scc_of tbl t)"
proof -
  from big obtain y where y: "y \<in> scc_of tbl t" "y \<noteq> x" by blast
  have xy: "same_scc tbl x y"
    using x y(1) unfolding scc_of_def by (auto intro: same_scc_trans same_scc_sym)
  then have "(x, y) \<in> (edges tbl)\<^sup>*" by (simp add: same_scc_def)
  then obtain z where xz: "(x, z) \<in> edges tbl" and zy: "(z, y) \<in> (edges tbl)\<^sup>*"
    using y(2) by (auto elim: converse_rtranclE)
  have "(z, x) \<in> (edges tbl)\<^sup>*" using zy xy unfolding same_scc_def by (meson rtrancl_trans)
  then have "same_scc tbl x z" using xz by (auto simp: same_scc_def)
  then have "z \<in> scc_of tbl t"
    using x unfolding scc_of_def by (auto intro: same_scc_trans)
  then show ?thesis using xz by (auto simp: edges_def)
qed

lemma mark_over: "mark c N (mark c' N g) = mark c N g"
  by (rule ext) (auto simp: mark_def map_option_case split: option.splits)

lemma mark_unstable_mark:
  "set l \<subseteq> dom g \<Longrightarrow> mark_unstable l g = Inr (mark UNSTABLE (set l) g)"
proof (induction l arbitrary: g)
  case Nil
  then show ?case by simp
next
  case (Cons t l)
  then obtain nd where nd: "g t = Some nd" by auto
  have e: "g(t \<mapsto> nd\<lparr>comp_type := UNSTABLE\<rparr>) = mark UNSTABLE {t} g"
    using mark_single[of g t nd UNSTABLE] nd by simp
  have "set l \<subseteq> dom (mark UNSTABLE {t} g)" using Cons.prems by simp
  from Cons.IH[OF this] show ?case using nd e by (simp add: mark_mark)
qed

lemma resolved_cong:
  assumes "\<forall>t \<in> set c. S t = tbl t" "x \<in> set c"
  shows "resolved (sort c) S x = resolved (sort c) tbl x"
proof -
  let ?s = "sort c" and ?is = "rev [0..<length (sort c)]"
  have "members_D ?s S ?is x = members_D ?s tbl ?is x"
  proof (rule members_D_cong)
    fix i assume "i \<in> set ?is"
    then have "?s ! i \<in> set c" using sort_nth_mem[of i c] by simp
    then show "waited_by (entry S (?s ! i)) = waited_by (entry tbl (?s ! i))"
      using assms(1) by (simp add: entry_def)
  qed
  then show ?thesis using assms by (simp add: resolved_def effect_def)
qed

lemma sort_distinct_set: "distinct l \<Longrightarrow> sort l = sorted_list_of_set (set l)"
  by (simp add: sorted_list_of_set_sort_remdups distinct_remdups_id)

lemma unassigned_mark:
  "c \<noteq> UNASSIGNED \<Longrightarrow> unassigned (mark c N g) = unassigned g - N"
  by (auto simp: unassigned_def mark_def split: if_splits)

lemma fc_inv_skip:
  assumes "fc_inv tbl T (t # ts) r" "t \<notin> unassigned (aux_graph r)"
  shows "fc_inv tbl T ts r"
proof -
  from assms(1) obtain done0 where "rev T = done0 @ t # ts" by (auto simp: fc_inv_def)
  then have "rev T = (done0 @ [t]) @ ts" by simp
  then have "\<exists>d. rev T = d @ ts" by blast
  moreover have "unassigned (aux_graph r) \<subseteq> set ts" using assms by (auto simp: fc_inv_def)
  ultimately show ?thesis using assms(1) unfolding fc_inv_def by blast
qed

lemma fc_inv_advance:
  assumes inv: "fc_inv tbl T (t # ts) r"
    and CU: "scc_of tbl t \<subseteq> unassigned (aux_graph r)"
    and Cdom: "scc_of tbl t \<subseteq> dom tbl"
    and g': "aux_graph r' = mark (if stable_txn tbl t then STABLE else UNSTABLE)
                              (scc_of tbl t) (aux_graph r)"
    and s': "snapshot r' = (\<lambda>x. if x \<in> scc_of tbl t then final_table tbl x else snapshot r x)"
    and u': "set (to_be_updated r') = set (to_be_updated r) \<union> {x \<in> scc_of tbl t. resolves tbl x}"
    and n': "set (new_ready_txns r') = set (new_ready_txns r) \<union> (ready_heads tbl \<inter> scc_of tbl t)"
  shows "fc_inv tbl T ts r'"
proof -
  let ?g = "aux_graph r" and ?C = "scc_of tbl t"
  let ?c = "if stable_txn tbl t then STABLE else UNSTABLE"
  let ?U = "unassigned ?g"
  have cne: "?c \<noteq> UNASSIGNED" by simp
  have U': "unassigned (aux_graph r') = ?U - ?C"
    unfolding g' using cne by (rule unassigned_mark)
  have ok: "graph_ok tbl ?g" and Uts: "?U \<subseteq> set (t # ts)"
    and cl: "\<forall>x y. same_scc tbl x y \<longrightarrow> x \<in> ?U \<longrightarrow> y \<in> ?U"
    and ct: "\<forall>x nd. ?g x = Some nd \<longrightarrow> comp_type nd \<noteq> UNASSIGNED \<longrightarrow>
                comp_type nd = (if stable_txn tbl x then STABLE else UNSTABLE)"
    and sn: "snapshot r = (\<lambda>x. if x \<in> ?U then tbl x else final_table tbl x)"
    and tu: "set (to_be_updated r) = {x \<in> dom tbl - ?U. resolves tbl x}"
    and nr: "set (new_ready_txns r) = {x \<in> ready_heads tbl. x \<notin> ?U}"
    using inv unfolding fc_inv_def by blast+
  from inv obtain done0 where rv: "rev T = done0 @ t # ts" by (auto simp: fc_inv_def)
  have 1: "graph_ok tbl (aux_graph r')" unfolding g' using ok by (rule graph_ok_mark)
  have 2: "unassigned (aux_graph r') \<subseteq> set ts" using U' Uts by auto
  have 3: "\<exists>d. rev T = d @ ts" using rv by (intro exI[of _ "done0 @ [t]"]) simp
  have 4: "\<forall>x y. same_scc tbl x y \<longrightarrow> x \<in> unassigned (aux_graph r')
             \<longrightarrow> y \<in> unassigned (aux_graph r')"
  proof (intro allI impI)
    fix x y assume xy: "same_scc tbl x y" and x: "x \<in> unassigned (aux_graph r')"
    have xU: "x \<in> ?U" and xC: "x \<notin> ?C" using x U' by auto
    have "y \<in> ?U" using cl xy xU by blast
    moreover have "y \<notin> ?C"
    proof
      assume "y \<in> ?C"
      then have "same_scc tbl t y" by (simp add: scc_of_def)
      then have "same_scc tbl t x" using xy by (meson same_scc_sym same_scc_trans)
      then show False using xC by (simp add: scc_of_def)
    qed
    ultimately show "y \<in> unassigned (aux_graph r')" using U' by simp
  qed
  have 5: "\<forall>x nd. aux_graph r' x = Some nd \<longrightarrow> comp_type nd \<noteq> UNASSIGNED \<longrightarrow>
             comp_type nd = (if stable_txn tbl x then STABLE else UNSTABLE)"
  proof (intro allI impI)
    fix x nd assume a: "aux_graph r' x = Some nd" and b: "comp_type nd \<noteq> UNASSIGNED"
    show "comp_type nd = (if stable_txn tbl x then STABLE else UNSTABLE)"
    proof (cases "x \<in> ?C")
      case True
      then have "same_scc tbl t x" by (simp add: scc_of_def)
      then have e: "stable_txn tbl t = stable_txn tbl x" by (rule stable_txn_scc)
      have "comp_type nd = ?c" using a True unfolding g' by (auto simp: mark_def)
      then show ?thesis using e by simp
    next
      case False
      then have "?g x = Some nd" using a unfolding g' by (simp add: mark_def)
      then show ?thesis using ct b by blast
    qed
  qed
  have 6: "snapshot r' = (\<lambda>x. if x \<in> unassigned (aux_graph r') then tbl x else final_table tbl x)"
    unfolding s' sn U' using CU by (intro ext) auto
  have 7: "set (to_be_updated r') = {x \<in> dom tbl - unassigned (aux_graph r'). resolves tbl x}"
    unfolding u' tu U' using CU Cdom by auto
  have 8: "set (new_ready_txns r') = {x \<in> ready_heads tbl. x \<notin> unassigned (aux_graph r')}"
    unfolding n' nr U' using CU by auto
  show ?thesis unfolding fc_inv_def using 1 2 3 4 5 6 7 8 by blast
qed

lemma form_components_unassigned:
  assumes "aux_graph r t = Some nd" "comp_type nd = UNASSIGNED"
    "FormStronglyConnectedComponent f t (r\<lparr>ssc := []\<rparr>) = Some (Inr (b, r1))"
  shows "form_components f (t # ts) r =
           (if \<not> b then
              (case mark_unstable (ssc r1) (aux_graph r1) of
                 Inl e \<Rightarrow> Some (Inl e)
               | Inr g \<Rightarrow> form_components f ts (r1\<lparr>aux_graph := g\<rparr>))
            else if length (ssc r1) > 1 then
              (case ResolveDeadlock r1 of
                 Inl e \<Rightarrow> Some (Inl e)
               | Inr (ready, r2) \<Rightarrow>
                   form_components f ts
                     (r2\<lparr>new_ready_txns :=
                           (case ready of
                              None \<Rightarrow> new_ready_txns r2
                            | Some t0 \<Rightarrow> new_ready_txns r2 @ [t0]),
                         to_be_updated := to_be_updated r2 @ ssc r2\<rparr>))
            else form_components f ts r1)"
  using assms by simp

lemma form_components_assigned:
  assumes "aux_graph r t = Some nd" "comp_type nd \<noteq> UNASSIGNED"
  shows "form_components f (t # ts) r = form_components f ts r"
  using assms by simp

lemma fc_step:
  assumes wf: "wf_table tbl" and kinv: "kosaraju_inv tbl {} T" and dT: "distinct T"
    and inv: "fc_inv tbl T (t # ts) r" and tu: "t \<in> unassigned (aux_graph r)"
    and fuel: "card (dom tbl) \<le> f"
  shows "\<exists>r'. form_components f (t # ts) r = form_components f ts r' \<and> fc_inv tbl T ts r'"
proof -
  let ?g = "aux_graph r" and ?C = "scc_of tbl t"
  let ?U = "unassigned ?g"
  let ?r = "r\<lparr>ssc := []\<rparr>"
  have fin: "finite (dom tbl)" using wf by (simp add: wf_table_def)
  have ok: "graph_ok tbl ?g" and Uts: "?U \<subseteq> set (t # ts)"
    and cl: "\<forall>x y. same_scc tbl x y \<longrightarrow> x \<in> ?U \<longrightarrow> y \<in> ?U"
    and ct: "\<forall>x nd. ?g x = Some nd \<longrightarrow> comp_type nd \<noteq> UNASSIGNED \<longrightarrow>
                comp_type nd = (if stable_txn tbl x then STABLE else UNSTABLE)"
    and sn: "snapshot r = (\<lambda>x. if x \<in> ?U then tbl x else final_table tbl x)"
    using inv unfolding fc_inv_def by blast+
  from inv obtain done0 where rv: "rev T = done0 @ t # ts" by (auto simp: fc_inv_def)
  have Udom: "?U \<subseteq> dom tbl" using ok by (auto simp: unassigned_def graph_ok_def)
  then have "card ?U \<le> card (dom tbl)" using fin by (intro card_mono)
  then have fuel': "card (unassigned (aux_graph ?r)) \<le> f" using fuel by simp
  have ok': "graph_ok tbl (aux_graph ?r)" using ok by simp
  have tu': "t \<in> unassigned (aux_graph ?r)" using tu by simp
  from FormStronglyConnectedComponent_correct[OF fin ok' tu' fuel']
  obtain b newl where run: "FormStronglyConnectedComponent f t ?r
                              = Some (Inr (b, scc_state ?r newl))"
    and tn: "t \<in> set newl" and col: "collected tbl ?g t newl"
    and b: "b = stable_flag tbl ?g (set newl)"
    by auto
  have C: "set newl = ?C" by (rule root_scc[OF kinv dT rv Uts cl tu col tn])
  have dn: "distinct newl" and CU: "?C \<subseteq> ?U" and closed: "closed_in tbl ?g ?C"
    using col C by (auto simp: collected_def)
  have Cdom: "?C \<subseteq> dom tbl" using CU Udom by auto
  have card: "card ?C = length newl" using dn C distinct_card[of newl] by simp
  define r1 where "r1 = scc_state ?r newl"
  have r1: "ssc r1 = newl" "aux_graph r1 = mark STABLE ?C ?g" "snapshot r1 = snapshot r"
    "to_be_updated r1 = to_be_updated r" "new_ready_txns r1 = new_ready_txns r"
    by (simp_all add: r1_def scc_state_def C)
  from tu obtain nd where nd: "?g t = Some nd" "comp_type nd = UNASSIGNED"
    by (auto simp: unassigned_def)
  note step = form_components_unassigned[OF nd run[folded r1_def], of ts]
  have same: "\<And>x. x \<in> ?C \<Longrightarrow> stable_txn tbl x = stable_txn tbl t"
    using stable_txn_scc[of tbl t] by (auto simp: scc_of_def)
  have "(\<forall>x \<in> ?C. stable_txn tbl x) \<longleftrightarrow> stable_txn tbl t"
    by (metis same scc_of_self)
  then have bst: "b = stable_txn tbl t"
    unfolding b C stable_flag_scc[OF ok ct closed CU] .
  have scc_eq: "\<And>x. x \<in> ?C \<Longrightarrow> scc_of tbl x = ?C"
    using scc_of_eq[of tbl t] by (auto simp: scc_of_def)
  have res: "resolves tbl x \<longleftrightarrow> b \<and> 1 < length newl" if "x \<in> ?C" for x
    unfolding resolves_def same[OF that] scc_eq[OF that] card bst by auto
  have snU: "\<And>x. x \<in> ?C \<Longrightarrow> snapshot r x = tbl x" using sn CU by auto
  show ?thesis
  proof (cases "b \<and> 1 < length newl")
    case False
    then have nores: "\<And>x. x \<in> ?C \<Longrightarrow> \<not> resolves tbl x" using res by simp
    have s0: "snapshot r = (\<lambda>x. if x \<in> ?C then final_table tbl x else snapshot r x)"
      using nores snU by (intro ext) (simp add: final_table_def)
    have u0: "set (to_be_updated r) = set (to_be_updated r) \<union> {x \<in> ?C. resolves tbl x}"
      using nores by auto
    have n0: "set (new_ready_txns r) = set (new_ready_txns r) \<union> (ready_heads tbl \<inter> ?C)"
      using nores by (auto simp: ready_heads_def)
    show ?thesis
    proof (cases b)
      case True
      then have len: "\<not> 1 < length (ssc r1)" using False r1 by simp
      have "form_components f (t # ts) r = form_components f ts r1"
        using step True len by simp
      moreover have "fc_inv tbl T ts r1"
        by (rule fc_inv_advance[OF inv CU Cdom])
           (use True bst r1 s0 u0 n0 in simp_all)
      ultimately show ?thesis by blast
    next
      case nb: False
      let ?r' = "r1\<lparr>aux_graph := mark UNSTABLE ?C ?g\<rparr>"
      have "set (ssc r1) \<subseteq> dom (aux_graph r1)"
        using r1 C Cdom ok by (simp add: graph_ok_def)
      then have "mark_unstable (ssc r1) (aux_graph r1) = Inr (mark UNSTABLE ?C ?g)"
        using mark_unstable_mark[of "ssc r1" "aux_graph r1"] r1 C by (simp add: mark_over)
      then have "form_components f (t # ts) r = form_components f ts ?r'"
        using step nb by simp
      moreover have "fc_inv tbl T ts ?r'"
        by (rule fc_inv_advance[OF inv CU Cdom])
           (use nb bst r1 s0 u0 n0 in simp_all)
      ultimately show ?thesis by blast
    qed
  next
    case True
    then have bt: b and len: "1 < length newl" by simp_all
    have yes: "\<And>x. x \<in> ?C \<Longrightarrow> resolves tbl x" using res True by simp
    let ?S = "snapshot r" and ?s = "sort newl"
    have sorted: "sorted_list_of_set ?C = ?s" using sort_distinct_set[OF dn] C by simp
    have comp: "is_component (ssc r1) (snapshot r1)"
      unfolding r1 is_component_def
    proof (intro conjI ballI)
      show "2 \<le> length newl" using len by simp
      show "distinct newl" by (rule dn)
      fix x assume "x \<in> set newl"
      then have xC: "x \<in> ?C" using C by simp
      have "\<exists>y \<in> ?C. y \<noteq> x"
      proof (rule ccontr)
        assume "\<not> (\<exists>y \<in> ?C. y \<noteq> x)"
        then have "?C \<subseteq> {x}" by auto
        then have "card ?C \<le> card {x}" by (intro card_mono) simp_all
        then show False using card len by simp
      qed
      from scc_member_edge[OF this xC] obtain info
        where info: "tbl x = Some info" "\<exists>w \<in> set (waited_by info). w \<in> ?C" by blast
      have "stable_txn tbl x" using same[OF xC] bst bt by simp
      then have "complete tbl x" by (simp add: stable_txn_def)
      then have "is_complete info" using info(1) by (simp add: complete_def)
      then show "\<exists>info. ?S x = Some info \<and> is_complete info
                    \<and> (\<exists>w \<in> set (waited_by info). w \<in> set newl)"
        using info snU[OF xC] C by auto
    qed
    define rdy where "rdy = (if is_ready (entry (resolved ?s ?S) (?s ! 0)) then Some (?s ! 0) else None)"
    define r2 where "r2 = r1\<lparr>ssc := ?s, snapshot := resolved ?s ?S\<rparr>"
    have RD: "ResolveDeadlock r1 = Inr (rdy, r2)"
      using ResolveDeadlock_resolved[OF comp] by (simp add: r1 rdy_def r2_def)
    define r' where "r' = r2\<lparr>new_ready_txns :=
                           (case rdy of
                              None \<Rightarrow> new_ready_txns r2
                            | Some t0 \<Rightarrow> new_ready_txns r2 @ [t0]),
                         to_be_updated := to_be_updated r2 @ ssc r2\<rparr>"
    have run': "form_components f (t # ts) r = form_components f ts r'"
      using step bt len r1(1) RD by (simp add: r'_def)
    have fin_on: "\<And>x. x \<in> ?C \<Longrightarrow> resolved ?s ?S x = final_table tbl x"
    proof -
      fix x assume xC: "x \<in> ?C"
      have "resolved ?s ?S x = resolved ?s tbl x"
        by (rule resolved_cong) (use snU C xC in auto)
      also have "\<dots> = final_table tbl x"
        using yes[OF xC] scc_eq[OF xC] sorted by (simp add: final_table_def)
      finally show "resolved ?s ?S x = final_table tbl x" .
    qed
    have s1: "snapshot r' = (\<lambda>x. if x \<in> ?C then final_table tbl x else snapshot r x)"
    proof (rule ext)
      fix x
      show "snapshot r' x = (if x \<in> ?C then final_table tbl x else snapshot r x)"
      proof (cases "x \<in> ?C")
        case True
        then show ?thesis using fin_on by (simp add: r'_def r2_def)
      next
        case False
        then have "x \<notin> set newl" using C by simp
        from resolved_outside[OF this, of ?S] show ?thesis
          using False by (simp add: r'_def r2_def)
      qed
    qed
    have "{x \<in> ?C. resolves tbl x} = ?C" using yes by auto
    then have u1: "set (to_be_updated r') = set (to_be_updated r) \<union> {x \<in> ?C. resolves tbl x}"
      using C by (simp add: r'_def r2_def r1)
    have "0 < length newl" using len by (cases newl) simp_all
    from sort_nth_mem[OF this] have h: "?s ! 0 \<in> ?C" using C by simp
    have eh: "entry (resolved ?s ?S) (?s ! 0) = entry (final_table tbl) (?s ! 0)"
      using fin_on[OF h] by (simp add: entry_def)
    have "x \<in> ready_heads tbl \<inter> ?C
            \<longleftrightarrow> x = ?s ! 0 \<and> is_ready (entry (final_table tbl) (?s ! 0))" for x
    proof (cases "x \<in> ?C")
      case True
      then have "x \<in> dom tbl" using Cdom by auto
      then show ?thesis
        using True yes[OF True] scc_eq[OF True] sorted by (auto simp: ready_heads_def)
    next
      case False
      then show ?thesis using h by auto
    qed
    then have heads: "ready_heads tbl \<inter> ?C
                   = (if is_ready (entry (final_table tbl) (?s ! 0)) then {?s ! 0} else {})"
      by auto
    have n1: "set (new_ready_txns r') = set (new_ready_txns r) \<union> (ready_heads tbl \<inter> ?C)"
      unfolding heads by (simp add: r'_def r2_def r1 rdy_def eh)
    have g1: "aux_graph r' = mark (if stable_txn tbl t then STABLE else UNSTABLE) ?C ?g"
      using bt bst by (simp add: r'_def r2_def r1)
    have "fc_inv tbl T ts r'"
      by (rule fc_inv_advance[OF inv CU Cdom g1 s1 u1 n1])
    then show ?thesis using run' by blast
  qed
qed

lemma form_components_correct:
  assumes wf: "wf_table tbl" and kinv: "kosaraju_inv tbl {} T" and dT: "distinct T"
    and setT: "set T \<subseteq> dom tbl" and fuel: "card (dom tbl) \<le> f"
  shows "fc_inv tbl T ts r \<Longrightarrow>
         \<exists>r'. form_components f ts r = Some (Inr r') \<and> fc_inv tbl T [] r'"
proof (induction ts arbitrary: r)
  case Nil
  then show ?case by simp
next
  case (Cons t ts)
  have ok: "graph_ok tbl (aux_graph r)" using Cons.prems by (simp add: fc_inv_def)
  from Cons.prems obtain done0 where "rev T = done0 @ t # ts" by (auto simp: fc_inv_def)
  show ?case
  proof (cases "t \<in> unassigned (aux_graph r)")
    case True
    from fc_step[OF wf kinv dT Cons.prems True fuel]
    obtain r' where "form_components f (t # ts) r = form_components f ts r'"
      "fc_inv tbl T ts r'" by blast
    then show ?thesis using Cons.IH[of r'] by simp
  next
    case False
    have inv': "fc_inv tbl T ts r" by (rule fc_inv_skip[OF Cons.prems False])
    show ?thesis
    proof (cases "aux_graph r t")
      case None
      have "t \<in> set (rev T)" using \<open>rev T = done0 @ t # ts\<close> by simp
      then have "t \<in> dom tbl" using setT by auto
      then have "t \<in> dom (aux_graph r)" using ok by (simp add: graph_ok_def)
      then show ?thesis using None by auto
    next
      case (Some nd)
      then have "comp_type nd \<noteq> UNASSIGNED" using False by (simp add: unassigned_def)
      from form_components_assigned[OF Some this] show ?thesis using Cons.IH[OF inv'] by simp
    qed
  qed
qed

subsection \<open>The pass\<close>

text \<open>
  The first loop establishes the invariant of the second; the write-back copies the
  resolved entries; so a pass returns, whatever the order of the snapshot, with the
  final table and with the ready heads in some order.
\<close>

lemma final_table_None: "tbl x = None \<Longrightarrow> final_table tbl x = None"
  by (simp add: final_table_def resolved_def)

lemma first_loop_correct:
  assumes wf: "wf_table tbl" and cover: "dom tbl \<subseteq> set order" and fuel: "card (dom tbl) < f"
  shows "\<exists>r1. find_topo_order f order (initial_resolver tbl) = Some (Inr r1)
           \<and> fc_inv tbl (topo_order r1) (rev (topo_order r1))
                (r1\<lparr>topo_order := rev (topo_order r1)\<rparr>)
           \<and> kosaraju_inv tbl {} (topo_order r1) \<and> distinct (topo_order r1)
           \<and> set (topo_order r1) \<subseteq> dom tbl"
proof -
  let ?r0 = "initial_resolver tbl"
  have i0: "inv1 tbl ?r0"
    by (simp add: inv1_def initial_resolver_def nodes_ok_def kosaraju_inv_def gray_def)
  have g0: "gray ?r0 = {}" by (simp add: gray_def initial_resolver_def)
  from find_topo_order_correct[OF wf i0 g0 fuel, of order]
  obtain r1 where run: "find_topo_order f order ?r0 = Some (Inr r1)"
    and inv: "inv1 tbl r1" and gr: "gray r1 = {}"
    and dm: "dom (aux_graph ?r0) \<union> (set order \<inter> dom tbl) \<subseteq> dom (aux_graph r1)"
    and rest: "ssc r1 = ssc ?r0" "to_be_updated r1 = to_be_updated ?r0"
      "new_ready_txns r1 = new_ready_txns ?r0"
    by blast
  let ?g = "aux_graph r1" and ?T = "topo_order r1"
  have snap: "snapshot r1 = tbl" and nok: "nodes_ok tbl ?g" and dT: "distinct ?T"
    and Tsub: "set ?T \<subseteq> dom ?g"
    and rec: "\<forall>t \<in> set ?T. \<forall>n. (t, n) \<in> edges tbl \<longrightarrow> recorded ?g t n"
    and kinv: "kosaraju_inv tbl (gray r1) ?T"
    using inv unfolding inv1_def by blast+
  have sub1: "dom ?g \<subseteq> dom tbl" using nok unfolding nodes_ok_def by blast
  have "dom tbl \<subseteq> set order \<inter> dom tbl" using cover by blast
  then have sub2: "dom tbl \<subseteq> dom ?g" using dm by blast
  have dg: "dom ?g = dom tbl" using sub1 sub2 by auto
  have Teq: "set ?T = dom tbl" using gr Tsub dg by (auto simp: gray_def)
  have ok: "graph_ok tbl ?g"
    unfolding graph_ok_def
  proof (intro conjI allI impI)
    show "dom ?g = dom tbl" by (rule dg)
    fix n nd assume nd: "?g n = Some nd"
    have p: "node_id nd = n \<and> (\<exists>i. tbl n = Some i \<and> node_is_complete nd = is_complete i)
        \<and> set (redges nd) \<subseteq> {t. (t, n) \<in> edges tbl}"
      using nok nd unfolding nodes_ok_def by blast
    show "node_id nd = n" using p by simp
    show "\<exists>i. tbl n = Some i \<and> node_is_complete nd = is_complete i" using p by simp
    show "set (redges nd) = preds tbl n"
    proof (intro equalityI subsetI)
      fix t assume "t \<in> set (redges nd)"
      then show "t \<in> preds tbl n" using p by (auto simp: preds_def)
    next
      fix t assume "t \<in> preds tbl n"
      then have e: "(t, n) \<in> edges tbl" by (simp add: preds_def)
      then have "t \<in> set ?T" using Teq by (auto dest: edge_dom)
      then have "recorded ?g t n" using rec e by blast
      then show "t \<in> set (redges nd)" using nd by (simp add: recorded_def)
    qed
  qed
  have un: "unassigned ?g = dom tbl"
  proof (intro equalityI subsetI)
    fix x assume "x \<in> unassigned ?g"
    then show "x \<in> dom tbl" using dg by (auto simp: unassigned_def)
  next
    fix x assume "x \<in> dom tbl"
    then obtain nd where nd: "?g x = Some nd" using dg by blast
    then have "comp_type nd = UNASSIGNED" using nok unfolding nodes_ok_def by blast
    then show "x \<in> unassigned ?g" using nd by (simp add: unassigned_def)
  qed
  let ?r2 = "r1\<lparr>topo_order := rev ?T\<rparr>"
  have "fc_inv tbl ?T (rev ?T) ?r2"
    unfolding fc_inv_def
  proof (intro conjI allI impI)
    show "graph_ok tbl (aux_graph ?r2)" using ok by simp
    show "unassigned (aux_graph ?r2) \<subseteq> set (rev ?T)" using un Teq by simp
    show "\<exists>done0. rev ?T = done0 @ rev ?T" by simp
    show "y \<in> unassigned (aux_graph ?r2)"
      if "same_scc tbl x y" "x \<in> unassigned (aux_graph ?r2)" for x y
    proof -
      have "x \<in> dom tbl" using that(2) un by simp
      moreover have "(x, y) \<in> (edges tbl)\<^sup>*" using that(1) by (simp add: same_scc_def)
      ultimately have "y \<in> dom tbl" using reach_dom[OF wf] by blast
      then show ?thesis using un by simp
    qed
    show "comp_type nd = (if stable_txn tbl x then STABLE else UNSTABLE)"
      if "aux_graph ?r2 x = Some nd" "comp_type nd \<noteq> UNASSIGNED" for x nd
      using that nok unfolding nodes_ok_def by auto
    show "snapshot ?r2 = (\<lambda>x. if x \<in> unassigned (aux_graph ?r2) then tbl x else final_table tbl x)"
    proof (rule ext)
      fix x
      show "snapshot ?r2 x = (if x \<in> unassigned (aux_graph ?r2) then tbl x else final_table tbl x)"
        using snap un final_table_None[of tbl x] by (cases "tbl x") auto
    qed
    show "set (to_be_updated ?r2) = {x \<in> dom tbl - unassigned (aux_graph ?r2). resolves tbl x}"
      using rest un by (simp add: initial_resolver_def)
    show "set (new_ready_txns ?r2) = {x \<in> ready_heads tbl. x \<notin> unassigned (aux_graph ?r2)}"
      using rest un by (auto simp: initial_resolver_def ready_heads_def)
  qed
  moreover have "kosaraju_inv tbl {} ?T" using kinv gr by simp
  ultimately show ?thesis using run dT Teq by blast
qed

lemma members_F_length [simp]: "length (members_F s is x l) = length l"
  by (induction "is" arbitrary: l) (simp_all add: member_F_def)

lemma final_table_shape:
  assumes "tbl x = Some info"
  shows "\<exists>a l. final_table tbl x = Some (info\<lparr>num_waiting_for := a, waited_by := l\<rparr>)
           \<and> length l = length (waited_by info)"
proof (cases "resolves tbl x")
  case True
  let ?s = "sorted_list_of_set (scc_of tbl x)"
  let ?is = "rev [0..<length ?s]"
  have "final_table tbl x
          = Some (info\<lparr>num_waiting_for := num_waiting_for info + members_D ?s tbl ?is x,
                        waited_by := members_F ?s ?is x (waited_by info)\<rparr>)"
    using True assms by (simp add: final_table_def resolved_def effect_def)
  moreover have "length (members_F ?s ?is x (waited_by info)) = length (waited_by info)"
    by simp
  ultimately show ?thesis by blast
next
  case False
  have "info = info\<lparr>num_waiting_for := num_waiting_for info, waited_by := waited_by info\<rparr>"
    by simp
  then show ?thesis using False assms unfolding final_table_def by (metis (full_types))
qed

lemma write_back_final:
  assumes "set ts \<subseteq> dom tbl"
  shows "\<forall>x. live x = tbl x \<or> live x = final_table tbl x \<Longrightarrow>
         write_back ts (final_table tbl) live
           = Inr (\<lambda>x. if x \<in> set ts then final_table tbl x else live x)"
  using assms
proof (induction ts arbitrary: live)
  case Nil
  then show ?case by simp
next
  case (Cons t ts)
  from Cons.prems(2) obtain info where info: "tbl t = Some info" by auto
  from final_table_shape[of tbl t info] info obtain a l
    where new: "final_table tbl t = Some (info\<lparr>num_waiting_for := a, waited_by := l\<rparr>)"
      and len: "length l = length (waited_by info)"
    by blast
  let ?new = "info\<lparr>num_waiting_for := a, waited_by := l\<rparr>"
  have "live t = Some info \<or> live t = Some ?new" using Cons.prems(1) info new by metis
  then obtain txn where txn: "live t = Some txn" "txn = info \<or> txn = ?new" by blast
  have upd: "txn\<lparr>waited_by := waited_by ?new @ drop (length (waited_by ?new)) (waited_by txn),
                 num_waiting_for := num_waiting_for ?new\<rparr> = ?new"
    using txn(2) len by auto
  have lt: "\<not> length (waited_by txn) < length (waited_by ?new)" using txn(2) len by auto
  define live1 where "live1 = live(t \<mapsto> ?new)"
  have step: "write_back (t # ts) (final_table tbl) live = write_back ts (final_table tbl) live1"
    using new txn(1) lt upd by (simp add: live1_def)
  have l1: "\<forall>x. live1 x = tbl x \<or> live1 x = final_table tbl x"
    using Cons.prems(1) new by (auto simp: live1_def)
  have sub: "set ts \<subseteq> dom tbl" using Cons.prems(2) by simp
  have "write_back ts (final_table tbl) live1
          = Inr (\<lambda>x. if x \<in> set ts then final_table tbl x else live1 x)"
    by (rule Cons.IH[OF l1 sub])
  moreover have "(\<lambda>x. if x \<in> set ts then final_table tbl x else live1 x)
                   = (\<lambda>x. if x \<in> set (t # ts) then final_table tbl x else live x)"
    using new by (intro ext) (auto simp: live1_def)
  ultimately show ?case using step by simp
qed

lemma Loop_final:
  assumes wf: "wf_table (txn_info lm)" and cover: "dom (txn_info lm) \<subseteq> set order"
    and fuel: "card (dom (txn_info lm)) < f"
  shows "\<exists>nr. Loop f order lm
            = Some (Inr (nr \<noteq> [], lm\<lparr>txn_info := final_table (txn_info lm),
                                       ready_txns := ready_txns lm @ nr\<rparr>))
          \<and> set nr = ready_heads (txn_info lm)"
proof -
  let ?tbl = "txn_info lm"
  from first_loop_correct[OF wf cover fuel]
  obtain r1 where run1: "find_topo_order f order (initial_resolver ?tbl) = Some (Inr r1)"
    and inv: "fc_inv ?tbl (topo_order r1) (rev (topo_order r1))
                (r1\<lparr>topo_order := rev (topo_order r1)\<rparr>)"
    and kinv: "kosaraju_inv ?tbl {} (topo_order r1)" and dT: "distinct (topo_order r1)"
    and setT: "set (topo_order r1) \<subseteq> dom ?tbl"
    by blast
  let ?r2 = "r1\<lparr>topo_order := rev (topo_order r1)\<rparr>"
  have fuel': "card (dom ?tbl) \<le> f" using fuel by simp
  from form_components_correct[OF wf kinv dT setT fuel' inv]
  obtain r3 where run2: "form_components f (rev (topo_order r1)) ?r2 = Some (Inr r3)"
    and fin: "fc_inv ?tbl (topo_order r1) [] r3"
    by blast
  have U: "unassigned (aux_graph r3) = {}" using fin by (simp add: fc_inv_def)
  have snap: "snapshot r3 = final_table ?tbl"
    and tbu: "set (to_be_updated r3) = {x \<in> dom ?tbl. resolves ?tbl x}"
    and nr: "set (new_ready_txns r3) = ready_heads ?tbl"
    using fin unfolding fc_inv_def U by auto
  have sub: "set (to_be_updated r3) \<subseteq> dom ?tbl" using tbu by auto
  have wb: "write_back (to_be_updated r3) (snapshot r3) ?tbl
              = Inr (\<lambda>x. if x \<in> set (to_be_updated r3) then final_table ?tbl x else ?tbl x)"
    unfolding snap by (rule write_back_final[OF sub]) simp
  have "(\<lambda>x. if x \<in> set (to_be_updated r3) then final_table ?tbl x else ?tbl x)
          = final_table ?tbl"
  proof (rule ext)
    fix x
    show "(if x \<in> set (to_be_updated r3) then final_table ?tbl x else ?tbl x) = final_table ?tbl x"
    proof (cases "x \<in> set (to_be_updated r3)")
      case True
      then show ?thesis by simp
    next
      case False
      then have "x \<notin> dom ?tbl \<or> \<not> resolves ?tbl x" using tbu by auto
      then have "final_table ?tbl x = ?tbl x"
      proof
        assume "x \<notin> dom ?tbl"
        then have "?tbl x = None" by auto
        then show ?thesis using final_table_None[of ?tbl x] by simp
      next
        assume "\<not> resolves ?tbl x"
        then show ?thesis by (simp add: final_table_def)
      qed
      then show ?thesis using False by simp
    qed
  qed
  then have wb': "write_back (to_be_updated r3) (snapshot r3) ?tbl = Inr (final_table ?tbl)"
    using wb by simp
  have "Loop f order lm
          = Some (Inr (new_ready_txns r3 \<noteq> [],
                       lm\<lparr>txn_info := final_table ?tbl,
                          ready_txns := ready_txns lm @ new_ready_txns r3\<rparr>))"
    using run1 run2 wb' by (simp add: Loop_def initial_resolver_def Let_def)
  then show ?thesis using nr by blast
qed

text \<open>
  C2. A pass of the resolver is deterministic in its snapshot. Take a lock manager whose
  table is one that the resolver expects (\<open>wf_table\<close>) and two passes on it that iterate
  over the snapshot in any two orders, each with fuel for the transactions of the
  table. Both passes return. They leave the same table, \<open>final_table\<close>, in which each stable
  component of two or more is rewritten on its members in ascending order and nothing
  else is changed, so the waited-by lists and the counters \<open>num_waiting_for\<close> agree; the
  transactions that they add to the ready list are the same set, \<open>ready_heads\<close>; and
  they agree on whether the signal is sent. In the witness the passes start the
  traversal at 1 and at 3.
\<close>

theorem Loop_deterministic:
  assumes "wf_table (txn_info lm)"
    and "dom (txn_info lm) \<subseteq> set order1" and "dom (txn_info lm) \<subseteq> set order2"
    and "card (dom (txn_info lm)) < fuel1" and "card (dom (txn_info lm)) < fuel2"
  shows "\<exists>signal lm1 lm2.
           Loop fuel1 order1 lm = Some (Inr (signal, lm1))
         \<and> Loop fuel2 order2 lm = Some (Inr (signal, lm2))
         \<and> txn_info lm1 = final_table (txn_info lm)
         \<and> txn_info lm2 = final_table (txn_info lm)
         \<and> set (drop (length (ready_txns lm)) (ready_txns lm1)) = ready_heads (txn_info lm)
         \<and> set (drop (length (ready_txns lm)) (ready_txns lm2)) = ready_heads (txn_info lm)
         \<and> lock_table lm1 = lock_table lm2"
proof -
  from Loop_final[OF assms(1,2,4)] obtain nr1
    where 1: "Loop fuel1 order1 lm
                = Some (Inr (nr1 \<noteq> [], lm\<lparr>txn_info := final_table (txn_info lm),
                                             ready_txns := ready_txns lm @ nr1\<rparr>))"
      and s1: "set nr1 = ready_heads (txn_info lm)"
    by blast
  from Loop_final[OF assms(1,3,5)] obtain nr2
    where 2: "Loop fuel2 order2 lm
                = Some (Inr (nr2 \<noteq> [], lm\<lparr>txn_info := final_table (txn_info lm),
                                             ready_txns := ready_txns lm @ nr2\<rparr>))"
      and s2: "set nr2 = ready_heads (txn_info lm)"
    by blast
  have "nr1 \<noteq> [] \<longleftrightarrow> nr2 \<noteq> []" using s1 s2 by (metis set_empty)
  then show ?thesis using 1 2 s1 s2 by simp
qed

theorem Loop_deterministic_witness:
  "wf_table (txn_info (manager_of blocked_table))
   \<and> dom (txn_info (manager_of blocked_table)) \<subseteq> set [1, 2, 3]
   \<and> dom (txn_info (manager_of blocked_table)) \<subseteq> set [3, 2, 1]
   \<and> card (dom (txn_info (manager_of blocked_table))) < 4
   \<and> (\<exists>signal lm1 lm2.
           Loop 4 [1, 2, 3] (manager_of blocked_table) = Some (Inr (signal, lm1))
         \<and> Loop 4 [3, 2, 1] (manager_of blocked_table) = Some (Inr (signal, lm2))
         \<and> txn_info lm1 = final_table blocked_table
         \<and> txn_info lm2 = final_table blocked_table
         \<and> set (ready_txns lm1) = ready_heads blocked_table
         \<and> set (ready_txns lm2) = ready_heads blocked_table
         \<and> lock_table lm1 = lock_table lm2)"
proof -
  let ?lm = "manager_of blocked_table"
  have t: "txn_info ?lm = blocked_table" and rt: "ready_txns ?lm = []"
    by (simp_all add: manager_of_def new_DDRLockManager_def)
  have wf: "wf_table (txn_info ?lm)"
    unfolding t by (auto simp: wf_table_def blocked_table_def kSentinelTxnId_def split: if_splits)
  have d: "dom (txn_info ?lm) = {1, 2, 3}" unfolding t by (auto simp: blocked_table_def)
  have a: "dom (txn_info ?lm) \<subseteq> set [1, 2, 3]" and b: "dom (txn_info ?lm) \<subseteq> set [3, 2, 1]"
    unfolding d by simp_all
  have c: "card (dom (txn_info ?lm)) < 4" unfolding d by simp
  from Loop_deterministic[OF wf a b c c] show ?thesis using wf a b c by (simp add: t rt)
qed

section \<open>Properties of the sequencer\<close>












end
